theory Spec2Isabelle
  imports Main "HOL-Library.Sublist"
begin

section \<open>JavaScript values used by app.js\<close>

text \<open>
  A JavaScript string is modelled as a \<^typ>\<open>string\<close>, one \<^typ>\<open>char\<close> per code unit
  (the code units below 256).
  \<open>String.prototype.substring(start, end)\<close> clamps both arguments to the range
  \<open>0 .. length\<close> and swaps them when \<open>start > end\<close>; it never throws.
\<close>

definition substring :: "string \<Rightarrow> int \<Rightarrow> int \<Rightarrow> string" where
  "substring s a b =
     (let n = int (length s);
          a' = max 0 (min a n);
          b' = max 0 (min b n);
          lo = min a' b';
          hi = max a' b'
      in take (nat (hi - lo)) (drop (nat lo) s))"

text \<open>
  Indexing an array, \<open>xs[i]\<close>: \<open>undefined\<close> (here \<open>None\<close>) outside the array.
  Calling a method on \<open>undefined\<close> throws a \<open>TypeError\<close>.
\<close>

definition index :: "'a list \<Rightarrow> nat \<Rightarrow> 'a option" where
  "index xs i = (if i < length xs then Some (xs ! i) else None)"

datatype js_error = TypeError

section \<open>TypingAnimation (app.js, lines 45-88)\<close>

text \<open>
  The two arrow functions that \<open>type()\<close> hands to \<open>setTimeout\<close>:
  \<open>() => this.type()\<close> and \<open>() => { this.isDeleting = true; this.type(); }\<close>.
\<close>

datatype callback = Tick | Pause

record timer =
  delay :: nat
  handler :: callback

text \<open>
  The object built by the constructor, together with the two pieces of the page it
  acts on: the \<open>innerHTML\<close> of its element and the timers it has pending in the event
  loop. The element is an element of the page: \<open>initApp\<close> passes the \<open>#typing-text\<close>
  element that \<open>renderHero\<close> has written. The phrases are strings, the two speeds are
  delays in milliseconds.
\<close>

record typing =
  innerHTML :: string
  texts :: "string list"
  typingSpeed :: nat
  deletingSpeed :: nat
  textIndex :: nat
  charIndex :: int
  isDeleting :: bool
  timers :: "timer list"

definition cursor :: string where
  \<open>cursor = ''<span class="cursor"></span>''\<close>

definition TypingAnimation :: "string \<Rightarrow> string list \<Rightarrow> nat \<Rightarrow> nat \<Rightarrow> typing" where
  "TypingAnimation element ts typing_speed deleting_speed =
     \<lparr>innerHTML = element, texts = ts, typingSpeed = typing_speed,
      deletingSpeed = deleting_speed, textIndex = 0, charIndex = 0,
      isDeleting = False, timers = []\<rparr>"

definition setTimeout :: "callback \<Rightarrow> nat \<Rightarrow> typing \<Rightarrow> typing" where
  "setTimeout f ms s = s\<lparr>timers := timers s @ [\<lparr>delay = ms, handler = f\<rparr>]\<rparr>"

definition render :: "string \<Rightarrow> typing \<Rightarrow> typing" where
  "render currentText s =
     s\<lparr>innerHTML := substring currentText 0 (charIndex s) @ cursor\<rparr>"

definition speed :: "typing \<Rightarrow> nat" where
  "speed s = (if isDeleting s then deletingSpeed s else typingSpeed s)"

definition type :: "typing \<Rightarrow> js_error + typing" where
  "type s =
     (case index (texts s) (textIndex s) of
        None \<Rightarrow> Inl TypeError
      | Some currentText \<Rightarrow>
          if \<not> isDeleting s then
            let s1 = render currentText s;
                s2 = s1\<lparr>charIndex := charIndex s1 + 1\<rparr>
            in if charIndex s2 > int (length currentText)
               then Inr (setTimeout Pause 2000 s2)
               else Inr (setTimeout Tick (speed s2) s2)
          else
            let s1 = render currentText s;
                s2 = s1\<lparr>charIndex := charIndex s1 - 1\<rparr>;
                s3 = (if charIndex s2 = 0
                      then s2\<lparr>isDeleting := False,
                              textIndex := (textIndex s2 + 1) mod length (texts s2)\<rparr>
                      else s2)
            in Inr (setTimeout Tick (speed s3) s3))"

definition start :: "typing \<Rightarrow> js_error + typing" where
  "start s = type s"

subsection \<open>The event loop\<close>

text \<open>
  The state in which \<open>type()\<close> is entered when a callback runs: the pause callback
  first sets \<open>isDeleting\<close>.
\<close>

fun entry :: "callback \<Rightarrow> typing \<Rightarrow> typing" where
  "entry Tick s = s"
| "entry Pause s = s\<lparr>isDeleting := True\<rparr>"

definition run_callback :: "callback \<Rightarrow> typing \<Rightarrow> js_error + typing" where
  "run_callback f s = type (entry f s)"

text \<open>
  The event loop fires the \<open>k\<close>-th pending timer: the timer leaves the queue and its
  callback runs to completion. Firing where no timer is pending does nothing.
\<close>

definition fire :: "nat \<Rightarrow> typing \<Rightarrow> js_error + typing" where
  "fire k s =
     (if k < length (timers s)
      then run_callback (handler (timers s ! k))
             (s\<lparr>timers := take k (timers s) @ drop (Suc k) (timers s)\<rparr>)
      else Inr s)"

text \<open>
  The states of one animation: the constructed object, the state after the single call
  of \<open>start()\<close> in \<open>initApp\<close>, and every state after a timer has fired.
\<close>

inductive reachable :: "typing \<Rightarrow> typing \<Rightarrow> bool" for s0 :: typing where
  constructed: "reachable s0 s0"
| started: "start s0 = Inr s \<Longrightarrow> reachable s0 s"
| fired: "reachable s0 s \<Longrightarrow> k < length (timers s) \<Longrightarrow> fire k s = Inr s'
          \<Longrightarrow> reachable s0 s'"

text \<open>Firing the oldest pending timer \<open>n\<close> times.\<close>

fun run :: "nat \<Rightarrow> typing \<Rightarrow> js_error + typing" where
  "run 0 s = Inr s"
| "run (Suc n) s = (case fire 0 s of Inl e \<Rightarrow> Inl e | Inr s' \<Rightarrow> run n s')"

subsection \<open>Observations of a running animation\<close>

text \<open>
  Each call of \<open>type()\<close> renders one frame: the mode and the \<open>charIndex\<close> it is
  entered with decide the text it writes.
\<close>

datatype mode = Typing | Deleting

definition frame :: "typing \<Rightarrow> mode \<times> int" where
  "frame e = (if isDeleting e then Deleting else Typing, charIndex e)"

text \<open>
  The frames rendered by the next \<open>n\<close> timer callbacks, oldest timer first. A callback
  that throws renders nothing, and nothing is rendered once no timer is pending.
\<close>

fun frames_from :: "nat \<Rightarrow> typing \<Rightarrow> (mode \<times> int) list" where
  "frames_from 0 s = []"
| "frames_from (Suc n) s =
     (case timers s of
        [] \<Rightarrow> []
      | t # ts \<Rightarrow>
          (case fire 0 s of
             Inl e \<Rightarrow> []
           | Inr s' \<Rightarrow> frame (entry (handler t) s) # frames_from n s'))"

text \<open>
  The first \<open>n\<close> frames of an animation: the frame of the call made by \<open>start()\<close>,
  then those of the timer callbacks.
\<close>

definition rendered :: "nat \<Rightarrow> typing \<Rightarrow> (mode \<times> int) list" where
  "rendered n s0 =
     (case n of
        0 \<Rightarrow> []
      | Suc m \<Rightarrow>
          (case start s0 of
             Inl e \<Rightarrow> []
           | Inr s1 \<Rightarrow> frame s0 # frames_from m s1))"

text \<open>The length of the phrase that \<open>textIndex\<close> selects.\<close>

definition phrase_len :: "typing \<Rightarrow> nat" where
  "phrase_len s = length (texts s ! textIndex s)"

text \<open>
  The states between two callbacks of a started animation: exactly one timer is pending.
  Before a tick the cursor is inside the phrase (and at least 1 while deleting); before
  the pause callback the mode is still typing and the cursor is one past the phrase.
\<close>

definition good :: "typing \<Rightarrow> bool" where
  "good s \<longleftrightarrow>
     textIndex s < length (texts s) \<and>
     (case timers s of
        [t] \<Rightarrow>
          (case handler t of
             Tick \<Rightarrow> delay t = speed s \<and>
                    (if isDeleting s then 1 \<le> charIndex s else 0 \<le> charIndex s) \<and>
                    charIndex s \<le> int (phrase_len s)
           | Pause \<Rightarrow> delay t = 2000 \<and> \<not> isDeleting s \<and>
                     charIndex s = int (phrase_len s) + 1)
      | _ \<Rightarrow> False)"

definition same_config :: "typing \<Rightarrow> typing \<Rightarrow> bool" where
  "same_config s s' \<longleftrightarrow>
     texts s' = texts s \<and> typingSpeed s' = typingSpeed s \<and> deletingSpeed s' = deletingSpeed s"

text \<open>
  A phrase is about to be typed: typing mode, cursor at 0, the next tick pending. The state
  in which the pause after the last typed character is pending.
\<close>

definition phrase_start :: "typing \<Rightarrow> bool" where
  "phrase_start s \<longleftrightarrow>
     textIndex s < length (texts s) \<and> charIndex s = 0 \<and> \<not> isDeleting s \<and>
     timers s = [\<lparr>delay = typingSpeed s, handler = Tick\<rparr>]"

definition pause_state :: "typing \<Rightarrow> bool" where
  "pause_state s \<longleftrightarrow>
     textIndex s < length (texts s) \<and> charIndex s = int (phrase_len s) + 1 \<and>
     \<not> isDeleting s \<and> timers s = [\<lparr>delay = 2000, handler = Pause\<rparr>]"

text \<open>
  Typing a phrase of length \<open>L\<close> takes \<open>L + 1\<close> calls of \<open>type()\<close> (cursor \<open>0 .. L\<close>),
  deleting it another \<open>L + 1\<close> (cursor \<open>L + 1 .. 1\<close>).
\<close>

definition cycle_steps :: "typing \<Rightarrow> nat" where
  "cycle_steps s = 2 * (length (texts s ! textIndex s) + 1)"

fun run_cycles :: "nat \<Rightarrow> typing \<Rightarrow> js_error + typing" where
  "run_cycles 0 s = Inr s"
| "run_cycles (Suc n) s =
     (case run (cycle_steps s) s of Inl e \<Rightarrow> Inl e | Inr s' \<Rightarrow> run_cycles n s')"

subsection \<open>The animation of the single phrase \<open>ab\<close>\<close>

definition ab_animation :: typing where
  "ab_animation = TypingAnimation cursor [''ab''] 80 50"

text \<open>Its state when \<open>shown\<close> is displayed and one timer is pending.\<close>

definition ab_at :: "string \<Rightarrow> int \<Rightarrow> bool \<Rightarrow> nat \<Rightarrow> callback \<Rightarrow> typing" where
  "ab_at shown c d ms f =
     \<lparr>innerHTML = shown @ cursor, texts = [''ab''], typingSpeed = 80, deletingSpeed = 50,
      textIndex = 0, charIndex = c, isDeleting = d, timers = [\<lparr>delay = ms, handler = f\<rparr>]\<rparr>"

section \<open>RevealOnScroll: ScrollAnimator and SkillBarsAnimator (app.js, lines 93-110, 310-333)\<close>

text \<open>
  The part of the page the two observers act on. A reveal target has a class list; a
  skill card also contains its \<open>.skill-progress\<close> element, which
  \<open>querySelector('.skill-progress')\<close> finds (\<open>None\<close> stands for \<open>null\<close>). That element
  carries the attribute \<open>data-width\<close> (\<open>getAttribute\<close> gives \<open>null\<close> when it is absent) and
  its inline style declarations.
\<close>

record progress =
  data_width :: "string option"
  style :: "string \<rightharpoonup> string"

record element =
  classList :: "string list"
  skill_progress :: "progress option"

text \<open>An \<open>IntersectionObserverEntry\<close>; \<open>target\<close> refers to an element of the page.\<close>

record observer_entry =
  target :: nat
  isIntersecting :: bool

text \<open>
  The elements by reference, and the calls of \<open>style.setProperty\<close> made so far (target,
  property, value), in order.
\<close>

record page =
  elements :: "nat \<Rightarrow> element"
  writes :: "(nat \<times> string \<times> string option) list"

text \<open>\<open>classList.add(token)\<close>: a token already present is not added again.\<close>

definition classList_add :: "string \<Rightarrow> element \<Rightarrow> element" where
  "classList_add token el =
     (if token \<in> set (classList el) then el else el\<lparr>classList := classList el @ [token]\<rparr>)"

definition getAttribute_data_width :: "progress \<Rightarrow> string option" where
  "getAttribute_data_width p = data_width p"

text \<open>
  \<open>style.setProperty(name, value)\<close>: \<open>null\<close> and the empty string remove the
  declaration, any other value is stored as given (a value such as \<open>88%\<close>, which
  \<open>renderSkills\<close> writes into \<open>data-width\<close>, has no white space around it to strip).
\<close>

definition stored :: "string option \<Rightarrow> string option" where
  "stored v = (case v of None \<Rightarrow> None | Some x \<Rightarrow> if x = [] then None else Some x)"

definition setProperty :: "string \<Rightarrow> string option \<Rightarrow> progress \<Rightarrow> progress" where
  "setProperty name v p = p\<lparr>style := (style p)(name := stored v)\<rparr>"

text \<open>\<open>entry.target.classList.add('visible')\<close>\<close>

definition add_visible :: "nat \<Rightarrow> page \<Rightarrow> page" where
  "add_visible t pg = pg\<lparr>elements := (elements pg)(t := classList_add ''visible'' (elements pg t))\<rparr>"

text \<open>\<open>progress.style.setProperty('--skill-width', width)\<close>\<close>

definition set_skill_width :: "nat \<Rightarrow> progress \<Rightarrow> string option \<Rightarrow> page \<Rightarrow> page" where
  "set_skill_width t p width pg =
     pg\<lparr>elements := (elements pg)
            (t := (elements pg t)\<lparr>skill_progress := Some (setProperty ''--skill-width'' width p)\<rparr>),
        writes := writes pg @ [(t, ''--skill-width'', width)]\<rparr>"

text \<open>The bodies of the two \<open>entries.forEach\<close> loops.\<close>

definition scroll_entry :: "observer_entry \<Rightarrow> page \<Rightarrow> page" where
  "scroll_entry e pg = (if isIntersecting e then add_visible (target e) pg else pg)"

definition skill_entry :: "observer_entry \<Rightarrow> page \<Rightarrow> page" where
  "skill_entry e pg =
     (if isIntersecting e then
        let pg1 = add_visible (target e) pg
        in (case skill_progress (elements pg1 (target e)) of
              None \<Rightarrow> pg1
            | Some p \<Rightarrow>
                let width = getAttribute_data_width p
                in set_skill_width (target e) p width pg1)
      else pg)"

definition ScrollAnimator_callback :: "observer_entry list \<Rightarrow> page \<Rightarrow> page" where
  "ScrollAnimator_callback entries pg = foldl (\<lambda>pg e. scroll_entry e pg) pg entries"

definition SkillBarsAnimator_callback :: "observer_entry list \<Rightarrow> page \<Rightarrow> page" where
  "SkillBarsAnimator_callback entries pg = foldl (\<lambda>pg e. skill_entry e pg) pg entries"

text \<open>
  A visibility-change notification: the browser calls the callback of one of the two
  observers with a batch of entries. Neither class ever calls \<open>unobserve\<close>, so
  notifications keep arriving for every target.
\<close>

datatype visibility_change = Scroll "observer_entry list" | Skill "observer_entry list"

fun deliver :: "visibility_change \<Rightarrow> page \<Rightarrow> page" where
  "deliver (Scroll entries) pg = ScrollAnimator_callback entries pg"
| "deliver (Skill entries) pg = SkillBarsAnimator_callback entries pg"

definition deliver_all :: "visibility_change list \<Rightarrow> page \<Rightarrow> page" where
  "deliver_all evs pg = foldl (\<lambda>pg ev. deliver ev pg) pg evs"

text \<open>
  The revealed state of a target is its \<open>visible\<close> marker; the width is applied when the
  marker is set and the style holds what \<open>data-width\<close> gives.
\<close>

definition revealed :: "nat \<Rightarrow> page \<Rightarrow> bool" where
  "revealed t pg \<longleftrightarrow> ''visible'' \<in> set (classList (elements pg t))"

definition width_applied :: "nat \<Rightarrow> page \<Rightarrow> bool" where
  "width_applied t pg \<longleftrightarrow>
     revealed t pg \<and>
     (case skill_progress (elements pg t) of
        None \<Rightarrow> True
      | Some p \<Rightarrow> style p ''--skill-width'' = stored (data_width p))"

text \<open>
  The intersecting entries for the target \<open>t\<close> in a batch, and the number of them that a
  sequence of notifications delivers to the SkillBarsAnimator callback.
\<close>

definition hits :: "nat \<Rightarrow> observer_entry list \<Rightarrow> nat" where
  "hits t entries = length (filter (\<lambda>e. isIntersecting e \<and> target e = t) entries)"

fun skill_hits :: "nat \<Rightarrow> visibility_change list \<Rightarrow> nat" where
  "skill_hits t [] = 0"
| "skill_hits t (Scroll entries # evs) = skill_hits t evs"
| "skill_hits t (Skill entries # evs) = hits t entries + skill_hits t evs"

text \<open>The calls of \<open>setProperty\<close> made for the target \<open>t\<close>, in order.\<close>

definition writes_to :: "nat \<Rightarrow> page \<Rightarrow> (nat \<times> string \<times> string option) list" where
  "writes_to t pg = filter (\<lambda>w. fst w = t) (writes pg)"

text \<open>The progress element once its \<open>--skill-width\<close> holds what \<open>data-width\<close> gives.\<close>

definition with_width :: "progress \<Rightarrow> progress" where
  "with_width p = p\<lparr>style := (style p)(''--skill-width'' := stored (data_width p))\<rparr>"

text \<open>
  The target \<open>t\<close>, whose progress element was \<open>p\<close> and whose earlier writes were \<open>w\<close>, after
  \<open>n\<close> intersecting entries of the SkillBarsAnimator callback.
\<close>

definition written ::
  "nat \<Rightarrow> progress \<Rightarrow> (nat \<times> string \<times> string option) list \<Rightarrow> nat \<Rightarrow> page \<Rightarrow> bool" where
  "written t p w n pg \<longleftrightarrow>
     skill_progress (elements pg t) = Some (if n = 0 then p else with_width p) \<and>
     writes_to t pg = w @ replicate n (t, ''--skill-width'', data_width p)"

subsection \<open>A page of skill cards as \<open>renderSkills\<close> writes them\<close>

definition card :: element where
  "card = \<lparr>classList = [''skill-card'', ''fade-in''],
           skill_progress = Some \<lparr>data_width = Some ''88%'', style = Map.empty\<rparr>\<rparr>"

definition card_page :: page where
  "card_page = \<lparr>elements = (\<lambda>_. card), writes = []\<rparr>"

definition enters :: "nat \<Rightarrow> observer_entry" where
  "enters t = \<lparr>target = t, isIntersecting = True\<rparr>"

definition leaves :: "nat \<Rightarrow> observer_entry" where
  "leaves t = \<lparr>target = t, isIntersecting = False\<rparr>"

section \<open>ContactForm (app.js, lines 176-305)\<close>

subsection \<open>\<open>trim\<close> and the email pattern\<close>

text \<open>
  The white space and line terminators of JavaScript among the code units below 256:
  tab, line feed, vertical tab, form feed, carriage return, space and no-break space.
  \<open>String.prototype.trim\<close> strips them at both ends, and the class \<open>\s\<close> of a regular
  expression matches them.
\<close>

definition is_space :: "char \<Rightarrow> bool" where
  "is_space c \<longleftrightarrow>
     c \<in> set [CHR 0x09, CHR 0x0A, CHR 0x0B, CHR 0x0C, CHR 0x0D, CHR 0x20, CHR 0xA0]"

definition trim :: "string \<Rightarrow> string" where
  "trim s = rev (dropWhile is_space (rev (dropWhile is_space s)))"

text \<open>
  Regular expressions over character classes, matched by derivatives. \<open>test r s\<close> is
  \<open>/^r$/.test(s)\<close>: an anchored pattern without flags matches the whole string.
\<close>

datatype rx = Nothing | Epsilon | Class "char \<Rightarrow> bool" | Seq rx rx | Alt rx rx | Star rx

fun nullable :: "rx \<Rightarrow> bool" where
  "nullable Nothing = False"
| "nullable Epsilon = True"
| "nullable (Class p) = False"
| "nullable (Seq r s) = (nullable r \<and> nullable s)"
| "nullable (Alt r s) = (nullable r \<or> nullable s)"
| "nullable (Star r) = True"

fun deriv :: "char \<Rightarrow> rx \<Rightarrow> rx" where
  "deriv c Nothing = Nothing"
| "deriv c Epsilon = Nothing"
| "deriv c (Class p) = (if p c then Epsilon else Nothing)"
| "deriv c (Seq r s) =
     (if nullable r then Alt (Seq (deriv c r) s) (deriv c s) else Seq (deriv c r) s)"
| "deriv c (Alt r s) = Alt (deriv c r) (deriv c s)"
| "deriv c (Star r) = Seq (deriv c r) (Star r)"

definition test :: "rx \<Rightarrow> string \<Rightarrow> bool" where
  "test r s = nullable (foldl (\<lambda>r c. deriv c r) r s)"

definition Plus :: "rx \<Rightarrow> rx" where
  "Plus r = Seq r (Star r)"

definition Chr :: "char \<Rightarrow> rx" where
  "Chr a = Class (\<lambda>c. c = a)"

text \<open>The class \<open>[^\s@]\<close> and the pattern \<open>/^[^\s@]+@[^\s@]+\.[^\s@]+$/\<close>.\<close>

definition not_space_or_at :: rx where
  "not_space_or_at = Class (\<lambda>c. \<not> is_space c \<and> c \<noteq> CHR ''@'')"

definition emailRegex :: rx where
  "emailRegex =
     Seq (Plus not_space_or_at) (Seq (Chr CHR ''@'')
       (Seq (Plus not_space_or_at) (Seq (Chr CHR ''.'') (Plus not_space_or_at))))"

subsection \<open>The form\<close>

text \<open>
  An \<open>input\<close> or \<open>textarea\<close> of the form with the state of its form group: whether the
  group carries the class \<open>error\<close>, and the text of its \<open>.form-error\<close> element (\<open>None\<close> when
  the group has none).
\<close>

datatype input_type = TextInput | EmailInput | TextArea

record field =
  ident :: string
  ftype :: input_type
  required :: bool
  defaultValue :: string
  field_value :: string
  group_error :: bool
  form_error :: "string option"

text \<open>
  The submit button shows either a plain label or the loading markup
  \<open><span class="loading"></span> Sending...\<close>; \<open>textContent\<close> reads the text of either.
\<close>

datatype button_content = Label string | Sending

fun textContent_of :: "button_content \<Rightarrow> string" where
  "textContent_of (Label s) = s"
| "textContent_of Sending = '' Sending...''"

record button =
  disabled :: bool
  content :: button_content

text \<open>
  The three messages \<open>showStatus\<close> is called with: "Please fix the errors before
  submitting", "Message sent successfully! I'll get back to you soon." (after a check
  mark) and "Failed to send message. Please try again or email me directly." (after a
  cross); \<open>NoMessage\<close> is the empty banner of the rendered page.
\<close>

datatype message = NoMessage | PleaseFix | MessageSent | FailedToSend

record status_element =
  className :: string
  textContent :: message
  display :: string

record form_data =
  fd_name :: string
  fd_email :: string
  fd_subject :: string
  fd_message :: string
  fd_timestamp :: string
  fd_status :: string

datatype console_entry = Log form_data | Error

text \<open>
  The promise awaited by \<open>handleSubmit\<close> settles one way or the other. The timers of
  this component: the one that hides the banner, and \<open>setTimeout(resolve, 1500)\<close>, whose
  firing resumes \<open>handleSubmit\<close> (which remembers \<open>originalText\<close>).
\<close>

datatype settlement = Fulfilled | Rejected

datatype task = HideStatus | Resolve string

text \<open>
  The form (\<open>querySelectorAll('input, textarea')\<close> in document order), its submit button
  and the status banner (\<open>None\<close> where the query gives \<open>null\<close>), the pending timers with
  their delays, and the console output.
\<close>

record contact =
  inputs :: "field list"
  btn_submit :: "button option"
  form_status :: "status_element option"
  pending :: "(nat \<times> task) list"
  console :: "console_entry list"

definition validateField :: "field \<Rightarrow> field \<times> bool" where
  "validateField f =
     (let (isValid, errorMessage) = (True, []);
          (isValid, errorMessage) =
            (if required f \<and> trim (field_value f) = []
             then (False, ''This field is required'')
             else (isValid, errorMessage));
          (isValid, errorMessage) =
            (if ftype f = EmailInput \<and> trim (field_value f) \<noteq> []
             then (if \<not> test emailRegex (field_value f)
                   then (False, ''Please enter a valid email address'')
                   else (isValid, errorMessage))
             else (isValid, errorMessage))
      in if isValid then (f\<lparr>group_error := False\<rparr>, isValid)
         else (f\<lparr>group_error := True,
                 form_error := (case form_error f of
                                  None \<Rightarrow> None
                                | Some _ \<Rightarrow> Some errorMessage)\<rparr>, isValid))"

text \<open>The body of the \<open>forEach\<close> of \<open>validateForm\<close>, on the inputs checked so far and the flag.\<close>

definition validate_input :: "field list \<times> bool \<Rightarrow> field \<Rightarrow> field list \<times> bool" where
  "validate_input st input =
     (let (checked, isValid) = st;
          (input', ok) = validateField input
      in (checked @ [input'], if \<not> ok then False else isValid))"

definition validateForm :: "contact \<Rightarrow> contact \<times> bool" where
  "validateForm w =
     (let (checked, isValid) = foldl validate_input ([], True) (inputs w)
      in (w\<lparr>inputs := checked\<rparr>, isValid))"

definition showStatus :: "string \<Rightarrow> message \<Rightarrow> contact \<Rightarrow> contact" where
  "showStatus status_type message w =
     (case form_status w of
        None \<Rightarrow> w
      | Some statusElement \<Rightarrow>
          w\<lparr>form_status := Some (statusElement\<lparr>className := ''form-status '' @ status_type,
                                              textContent := message,
                                              display := ''block''\<rparr>),
            pending := pending w @ [(5000, HideStatus)]\<rparr>)"

text \<open>\<open>this.form.querySelector('#id').value\<close>; \<open>None\<close> where reading it would throw.\<close>

definition value_of :: "string \<Rightarrow> contact \<Rightarrow> string option" where
  "value_of i w = map_option field_value (find (\<lambda>f. ident f = i) (inputs w))"

text \<open>
  The executor of the promise logs the data and schedules \<open>resolve\<close>; it never calls a
  \<open>reject\<close> and sends nothing.
\<close>

definition simulateSubmission :: "form_data \<Rightarrow> string \<Rightarrow> contact \<Rightarrow> contact" where
  "simulateSubmission data originalText w =
     w\<lparr>console := console w @ [Log data],
       pending := pending w @ [(1500, Resolve originalText)]\<rparr>"

text \<open>
  \<open>handleSubmit\<close> up to its \<open>await\<close>; \<open>now\<close> is \<open>new Date().toISOString()\<close>. Reading a
  property of a missing button or input throws.
\<close>

definition handleSubmit :: "string \<Rightarrow> contact \<Rightarrow> js_error + contact" where
  "handleSubmit now w =
     (let (w1, ok) = validateForm w
      in if \<not> ok then Inr (showStatus ''error'' PleaseFix w1)
         else
           (case btn_submit w1 of
              None \<Rightarrow> Inl TypeError
            | Some submitBtn \<Rightarrow>
                let originalText = textContent_of (content submitBtn);
                    w2 = w1\<lparr>btn_submit := Some (submitBtn\<lparr>disabled := True, content := Sending\<rparr>)\<rparr>
                in (case (value_of ''name'' w2, value_of ''email'' w2,
                          value_of ''subject'' w2, value_of ''message'' w2) of
                      (Some n, Some e, Some s, Some m) \<Rightarrow>
                        let formData = \<lparr>fd_name = n, fd_email = e, fd_subject = s,
                                        fd_message = m, fd_timestamp = now,
                                        fd_status = ''new''\<rparr>
                        in Inr (simulateSubmission formData originalText w2)
                    | _ \<Rightarrow> Inl TypeError)))"

text \<open>\<open>this.form.reset()\<close>\<close>

definition form_reset :: "contact \<Rightarrow> contact" where
  "form_reset w = w\<lparr>inputs := map (\<lambda>f. f\<lparr>field_value := defaultValue f\<rparr>) (inputs w)\<rparr>"

text \<open>
  \<open>handleSubmit\<close> after its \<open>await\<close>: the \<open>try\<close> branch when the promise is fulfilled, the
  \<open>catch\<close> branch when it is rejected, then the \<open>finally\<close> block.
\<close>

definition handleSubmit_resume :: "settlement \<Rightarrow> string \<Rightarrow> contact \<Rightarrow> contact" where
  "handleSubmit_resume outcome originalText w =
     (let w1 = (case outcome of
                  Fulfilled \<Rightarrow> form_reset (showStatus ''success'' MessageSent w)
                | Rejected \<Rightarrow>
                    (let w' = showStatus ''error'' FailedToSend w
                     in w'\<lparr>console := console w' @ [Error]\<rparr>))
      in w1\<lparr>btn_submit := map_option (\<lambda>b. b\<lparr>disabled := False, content := Label originalText\<rparr>)
                              (btn_submit w1)\<rparr>)"

fun run_task :: "task \<Rightarrow> contact \<Rightarrow> contact" where
  "run_task HideStatus w =
     w\<lparr>form_status := map_option (\<lambda>el. el\<lparr>display := ''none''\<rparr>) (form_status w)\<rparr>"
| "run_task (Resolve originalText) w = handleSubmit_resume Fulfilled originalText w"

definition fire_task :: "nat \<Rightarrow> contact \<Rightarrow> contact" where
  "fire_task k w =
     (if k < length (pending w)
      then run_task (snd (pending w ! k))
             (w\<lparr>pending := take k (pending w) @ drop (Suc k) (pending w)\<rparr>)
      else w)"

subsection \<open>The form as \<open>renderContact\<close> writes it\<close>

definition rendered_input :: "string \<Rightarrow> input_type \<Rightarrow> bool \<Rightarrow> string \<Rightarrow> field" where
  "rendered_input i t r v =
     \<lparr>ident = i, ftype = t, required = r, defaultValue = [], field_value = v,
      group_error = False, form_error = Some []\<rparr>"

text \<open>The rendered form after the visitor has typed the four values.\<close>

definition renderContact_form :: "string \<Rightarrow> string \<Rightarrow> string \<Rightarrow> string \<Rightarrow> contact" where
  "renderContact_form n e s m =
     \<lparr>inputs = [rendered_input ''name'' TextInput True n,
                rendered_input ''email'' EmailInput True e,
                rendered_input ''subject'' TextInput False s,
                rendered_input ''message'' TextArea True m],
      btn_submit = Some \<lparr>disabled = False, content = Label ''Send Message''\<rparr>,
      form_status = Some \<lparr>className = ''form-status'', textContent = NoMessage, display = []\<rparr>,
      pending = [], console = []\<rparr>"

text \<open>
  A form with the inputs of \<open>renderContact\<close> (ids, types and \<open>required\<close> attributes), a
  submit button and a status banner.
\<close>

definition as_rendered :: "contact \<Rightarrow> bool" where
  "as_rendered w \<longleftrightarrow>
     map (\<lambda>f. (ident f, ftype f, required f)) (inputs w) =
       [(''name'', TextInput, True), (''email'', EmailInput, True),
        (''subject'', TextInput, False), (''message'', TextArea, True)] \<and>
     btn_submit w \<noteq> None \<and> form_status w \<noteq> None"

text \<open>What the status banner shows: class, message and \<open>display\<close>.\<close>

definition shown :: "contact \<Rightarrow> (string \<times> message \<times> string) option" where
  "shown w = map_option (\<lambda>el. (className el, textContent el, display el)) (form_status w)"

text \<open>The fields \<open>validateField\<close> accepts.\<close>

definition acceptable :: "field \<Rightarrow> bool" where
  "acceptable f \<longleftrightarrow>
     \<not> (required f \<and> trim (field_value f) = []) \<and>
     \<not> (ftype f = EmailInput \<and> trim (field_value f) \<noteq> [] \<and>
        \<not> test emailRegex (field_value f))"

definition invalid_form :: contact where
  "invalid_form = renderContact_form ''Nigel'' ''nigel@example'' [] ''hello''"

definition valid_form :: contact where
  "valid_form = renderContact_form ''Nigel'' ''nigel@example.com'' [] ''hello''"

section \<open>Rendering the skill and project cards (app.js, lines 518-577)\<close>





text \<open>The entries of \<open>portfolioData.skills\<close> and \<open>portfolioData.featuredProjects\<close>.\<close>

record skill =
  name :: string
  proficiency :: nat
  category :: string
  icon :: string








subsection \<open>The data of the page\<close>



subsection \<open>Counting cards in markup\<close>








section \<open>Verification\<close>

subsection \<open>TypingAnimation\<close>

lemma substring_0: "substring s 0 c = take (nat c) s"
  by (auto simp: substring_def Let_def min_def max_def)

lemma good_timers: "good s \<Longrightarrow> \<exists>t. timers s = [t]"
  by (auto simp: good_def split: list.splits)

lemma next_index_less:
  "i < n \<Longrightarrow> Suc i mod n < n"
  by (intro mod_less_divisor) auto

lemma good_fire:
  assumes "good s" "k < length (timers s)"
  shows "\<exists>s'. fire k s = Inr s' \<and> good s' \<and> texts s' = texts s
     \<and> typingSpeed s' = typingSpeed s \<and> deletingSpeed s' = deletingSpeed s"
proof -
  from assms obtain t where t: "timers s = [t]" "k = 0"
    by (auto simp: good_def split: list.splits)
  show ?thesis
    using assms t
    by (cases "handler t")
      (auto simp: good_def fire_def run_callback_def type_def index_def Let_def
          setTimeout_def render_def speed_def phrase_len_def Suc_le_eq next_index_less)
qed

lemma good_start:
  assumes "ts \<noteq> []"
  shows "\<exists>s'. start (TypingAnimation el ts a b) = Inr s' \<and> good s' \<and> texts s' = ts
    \<and> typingSpeed s' = a \<and> deletingSpeed s' = b"
  using assms
  by (auto simp: good_def start_def type_def index_def Let_def TypingAnimation_def
          setTimeout_def render_def speed_def phrase_len_def Suc_le_eq)

lemma TypingAnimation_simps [simp]:
  "innerHTML (TypingAnimation el ts a b) = el"
  "texts (TypingAnimation el ts a b) = ts"
  "typingSpeed (TypingAnimation el ts a b) = a"
  "deletingSpeed (TypingAnimation el ts a b) = b"
  "textIndex (TypingAnimation el ts a b) = 0"
  "charIndex (TypingAnimation el ts a b) = 0"
  "isDeleting (TypingAnimation el ts a b) = False"
  "timers (TypingAnimation el ts a b) = []"
  by (simp_all add: TypingAnimation_def)

lemma reachable_good:
  assumes "ts \<noteq> []" "reachable (TypingAnimation el ts a b) s"
  shows "texts s = ts \<and> typingSpeed s = a \<and> deletingSpeed s = b \<and>
         (timers s = [] \<and> textIndex s = 0 \<and> charIndex s = 0 \<and> \<not> isDeleting s \<or> good s)"
  using assms(2)
proof (induction rule: reachable.induct)
  case constructed
  then show ?case by simp
next
  case (started s)
  with good_start[OF assms(1), of el a b] show ?case by auto
next
  case (fired s k s')
  then have "good s" by auto
  with good_fire[of s k] fired show ?case by auto
qed

lemma reachable_empty:
  assumes "reachable (TypingAnimation el [] a b) s"
  shows "s = TypingAnimation el [] a b"
  using assms
proof (induction rule: reachable.induct)
  case constructed
  show ?case by simp
next
  case (started s)
  then show ?case
    by (simp add: start_def type_def index_def)
next
  case (fired s k s')
  then show ?case by simp
qed

lemma run_add:
  "run (m + n) s = (case run m s of Inl e \<Rightarrow> Inl e | Inr s' \<Rightarrow> run n s')"
  by (induction m arbitrary: s) (auto split: sum.splits)

lemma run_seq:
  "run m s = Inr s1 \<Longrightarrow> run n s1 = Inr s2 \<Longrightarrow> run (m + n) s = Inr s2"
  by (simp add: run_add)

lemma run_one: "fire 0 s = Inr s' \<Longrightarrow> run 1 s = Inr s'"
  by simp

lemma run_typing:
  assumes "\<not> isDeleting s" "timers s = [\<lparr>delay = typingSpeed s, handler = Tick\<rparr>]"
    "textIndex s < length (texts s)" "charIndex s = int c" "c + k \<le> phrase_len s"
  shows "\<exists>s'. run k s = Inr s' \<and> same_config s s' \<and> textIndex s' = textIndex s \<and>
           \<not> isDeleting s' \<and> timers s' = timers s \<and> charIndex s' = int (c + k)"
  using assms
proof (induction k arbitrary: s c)
  case 0
  then show ?case by (simp add: same_config_def)
next
  case (Suc k)
  let ?s1 = "s\<lparr>innerHTML := substring (texts s ! textIndex s) 0 (charIndex s) @ cursor,
               charIndex := int (Suc c)\<rparr>"
  from Suc.prems have f: "fire 0 s = Inr ?s1"
    by (simp add: fire_def run_callback_def type_def index_def Let_def
        setTimeout_def render_def speed_def phrase_len_def)
  from Suc.prems have "\<exists>s'. run k ?s1 = Inr s' \<and> same_config ?s1 s' \<and> textIndex s' = textIndex ?s1 \<and>
           \<not> isDeleting s' \<and> timers s' = timers ?s1 \<and> charIndex s' = int (Suc c + k)"
    by (intro Suc.IH) (simp_all add: phrase_len_def)
  with f show ?case by (auto simp: same_config_def)
qed

lemma run_deleting:
  assumes "isDeleting s" "timers s = [\<lparr>delay = deletingSpeed s, handler = Tick\<rparr>]"
    "textIndex s < length (texts s)" "charIndex s = int (c + k)" "0 < c"
  shows "\<exists>s'. run k s = Inr s' \<and> same_config s s' \<and> textIndex s' = textIndex s \<and>
           isDeleting s' \<and> timers s' = timers s \<and> charIndex s' = int c"
  using assms
proof (induction k arbitrary: s)
  case 0
  then show ?case by (simp add: same_config_def)
next
  case (Suc k)
  let ?s1 = "s\<lparr>innerHTML := substring (texts s ! textIndex s) 0 (charIndex s) @ cursor,
               charIndex := int (c + k)\<rparr>"
  from Suc.prems have f: "fire 0 s = Inr ?s1"
    by (simp add: fire_def run_callback_def type_def index_def Let_def
        setTimeout_def render_def speed_def phrase_len_def)
  from Suc.prems have "\<exists>s'. run k ?s1 = Inr s' \<and> same_config ?s1 s' \<and> textIndex s' = textIndex ?s1 \<and>
           isDeleting s' \<and> timers s' = timers ?s1 \<and> charIndex s' = int c"
    by (intro Suc.IH) simp_all
  with f show ?case by (auto simp: same_config_def)
qed

lemma fire_last_typing:
  assumes "\<not> isDeleting s" "timers s = [\<lparr>delay = typingSpeed s, handler = Tick\<rparr>]"
    "textIndex s < length (texts s)" "charIndex s = int (phrase_len s)"
  shows "\<exists>s'. fire 0 s = Inr s' \<and> same_config s s' \<and> textIndex s' = textIndex s \<and>
           pause_state s'"
  using assms
  by (simp add: fire_def run_callback_def type_def index_def Let_def same_config_def
        setTimeout_def render_def speed_def phrase_len_def pause_state_def)

lemma fire_pause:
  assumes "pause_state s"
  shows "\<exists>s'. fire 0 s = Inr s' \<and> same_config s s' \<and>
           (if phrase_len s = 0
            then phrase_start s' \<and> textIndex s' = Suc (textIndex s) mod length (texts s)
            else textIndex s' = textIndex s \<and> isDeleting s' \<and>
                 charIndex s' = int (phrase_len s) \<and>
                 timers s' = [\<lparr>delay = deletingSpeed s', handler = Tick\<rparr>])"
  using assms
  by (simp add: fire_def run_callback_def type_def index_def Let_def same_config_def
        setTimeout_def render_def speed_def phrase_len_def pause_state_def phrase_start_def
        next_index_less)

lemma fire_last_deleting:
  assumes "isDeleting s" "timers s = [\<lparr>delay = deletingSpeed s, handler = Tick\<rparr>]"
    "textIndex s < length (texts s)" "charIndex s = 1"
  shows "\<exists>s'. fire 0 s = Inr s' \<and> same_config s s' \<and> phrase_start s' \<and>
           textIndex s' = Suc (textIndex s) mod length (texts s)"
  using assms
  by (simp add: fire_def run_callback_def type_def index_def Let_def same_config_def
        setTimeout_def render_def speed_def phrase_len_def phrase_start_def next_index_less)

lemma same_config_trans: "same_config a b \<Longrightarrow> same_config b c \<Longrightarrow> same_config a c"
  by (simp add: same_config_def)

lemma same_config_len:
  "same_config a b \<Longrightarrow> textIndex b = textIndex a \<Longrightarrow> phrase_len b = phrase_len a"
  by (simp add: same_config_def phrase_len_def)

lemma run_to_pause:
  assumes "\<not> isDeleting s" "timers s = [\<lparr>delay = typingSpeed s, handler = Tick\<rparr>]"
    "textIndex s < length (texts s)" "charIndex s = int c" "c \<le> phrase_len s"
  shows "\<exists>s'. run (phrase_len s - c + 1) s = Inr s' \<and> same_config s s' \<and>
           textIndex s' = textIndex s \<and> pause_state s'"
proof -
  from assms have "c + (phrase_len s - c) \<le> phrase_len s" by simp
  from run_typing[OF assms(1-4) this] obtain s1 where
    s1: "run (phrase_len s - c) s = Inr s1" "same_config s s1" "textIndex s1 = textIndex s"
        "\<not> isDeleting s1" "timers s1 = timers s" "charIndex s1 = int (c + (phrase_len s - c))"
    by blast
  have len: "phrase_len s1 = phrase_len s"
    using s1 by (simp add: same_config_len)
  have "\<exists>s'. fire 0 s1 = Inr s' \<and> same_config s1 s' \<and> textIndex s' = textIndex s1 \<and>
           pause_state s'"
    using s1 assms len by (intro fire_last_typing) (simp_all add: same_config_def)
  then obtain s2 where s2: "fire 0 s1 = Inr s2" "same_config s1 s2"
      "textIndex s2 = textIndex s1" "pause_state s2"
    by blast
  have "run (phrase_len s - c + 1) s = Inr s2"
    using s1(1) run_one[OF s2(1)] by (rule run_seq)
  with s1 s2 show ?thesis
    by (auto intro: same_config_trans)
qed

lemma run_from_pause:
  assumes "pause_state s"
  shows "\<exists>s'. run (phrase_len s + 1) s = Inr s' \<and> same_config s s' \<and> phrase_start s' \<and>
           textIndex s' = Suc (textIndex s) mod length (texts s)"
proof (cases "phrase_len s = 0")
  case True
  with fire_pause[OF assms] show ?thesis by auto
next
  case False
  with fire_pause[OF assms] obtain s1 where
    s1: "fire 0 s = Inr s1" "same_config s s1" "textIndex s1 = textIndex s" "isDeleting s1"
        "charIndex s1 = int (phrase_len s)"
        "timers s1 = [\<lparr>delay = deletingSpeed s1, handler = Tick\<rparr>]"
    by auto
  from assms have idx: "textIndex s < length (texts s)"
    by (simp add: pause_state_def)
  have "\<exists>s'. run (phrase_len s - 1) s1 = Inr s' \<and> same_config s1 s' \<and>
          textIndex s' = textIndex s1 \<and> isDeleting s' \<and> timers s' = timers s1 \<and>
          charIndex s' = int 1"
    using s1 idx False by (intro run_deleting) (simp_all add: same_config_def)
  then obtain s2 where
    s2: "run (phrase_len s - 1) s1 = Inr s2" "same_config s1 s2" "textIndex s2 = textIndex s1"
        "isDeleting s2" "timers s2 = timers s1" "charIndex s2 = 1"
    by auto
  have "\<exists>s'. fire 0 s2 = Inr s' \<and> same_config s2 s' \<and> phrase_start s' \<and>
           textIndex s' = Suc (textIndex s2) mod length (texts s2)"
    using s1 s2 idx by (intro fire_last_deleting) (simp_all add: same_config_def)
  then obtain s3 where
    s3: "fire 0 s2 = Inr s3" "same_config s2 s3" "phrase_start s3"
        "textIndex s3 = Suc (textIndex s2) mod length (texts s2)"
    by auto
  have "run ((phrase_len s - 1) + 1) s1 = Inr s3"
    using s2(1) run_one[OF s3(1)] by (rule run_seq)
  with run_one[OF s1(1)] have "run (1 + ((phrase_len s - 1) + 1)) s = Inr s3"
    by (rule run_seq)
  moreover have "1 + ((phrase_len s - 1) + 1) = phrase_len s + 1"
    using False by simp
  ultimately have "run (phrase_len s + 1) s = Inr s3"
    by (simp only:)
  with s1 s2 s3 show ?thesis
    by (auto simp: same_config_def)
qed

lemma run_cycle:
  assumes "phrase_start s"
  shows "\<exists>s'. run (cycle_steps s) s = Inr s' \<and> same_config s s' \<and> phrase_start s' \<and>
           textIndex s' = Suc (textIndex s) mod length (texts s)"
proof -
  from assms have "\<exists>s'. run (phrase_len s - 0 + 1) s = Inr s' \<and> same_config s s' \<and>
           textIndex s' = textIndex s \<and> pause_state s'"
    by (intro run_to_pause) (simp_all add: phrase_start_def)
  then obtain s1 where s1: "run (phrase_len s + 1) s = Inr s1" "same_config s s1"
      "textIndex s1 = textIndex s" "pause_state s1"
    by auto
  from run_from_pause[OF s1(4)] obtain s2 where
    s2: "run (phrase_len s1 + 1) s1 = Inr s2" "same_config s1 s2" "phrase_start s2"
        "textIndex s2 = Suc (textIndex s1) mod length (texts s1)"
    by auto
  have len: "phrase_len s1 = phrase_len s"
    using s1 by (simp add: same_config_len)
  have e: "cycle_steps s = (phrase_len s + 1) + (phrase_len s1 + 1)"
    using len by (simp add: cycle_steps_def phrase_len_def)
  have "run (cycle_steps s) s = Inr s2"
    unfolding e using s1(1) s2(1) by (rule run_seq)
  with s1 s2 show ?thesis
    by (auto simp: same_config_def)
qed

lemmas typing_defs = fire_def run_callback_def type_def index_def Let_def
  setTimeout_def render_def speed_def substring_def

lemma ab_start: "start ab_animation = Inr (ab_at [] 1 False 80 Tick)"
  by (simp add: start_def ab_animation_def TypingAnimation_def ab_at_def typing_defs)

lemma ab_fire:
  "fire 0 (ab_at [] 1 False 80 Tick) = Inr (ab_at ''a'' 2 False 80 Tick)"
  "fire 0 (ab_at ''a'' 2 False 80 Tick) = Inr (ab_at ''ab'' 3 False 2000 Pause)"
  "fire 0 (ab_at ''ab'' 3 False 2000 Pause) = Inr (ab_at ''ab'' 2 True 50 Tick)"
  "fire 0 (ab_at ''ab'' 2 True 50 Tick) = Inr (ab_at ''ab'' 1 True 50 Tick)"
  "fire 0 (ab_at ''ab'' 1 True 50 Tick) = Inr (ab_at ''a'' 0 False 80 Tick)"
  "fire 0 (ab_at ''a'' 0 False 80 Tick) = Inr (ab_at [] 1 False 80 Tick)"
  by (simp_all add: ab_at_def typing_defs)

lemma reachable_run:
  "reachable s0 s \<Longrightarrow> run n s = Inr s' \<Longrightarrow> reachable s0 s'"
proof (induction n arbitrary: s)
  case 0
  then show ?case by simp
next
  case (Suc n)
  from Suc.prems(2) obtain s1 where s1: "fire 0 s = Inr s1" "run n s1 = Inr s'"
    by (auto split: sum.splits)
  have r: "reachable s0 s1"
  proof (cases "0 < length (timers s)")
    case True
    with Suc.prems(1) show ?thesis using s1(1) by (rule reachable.fired)
  next
    case False
    with s1(1) Suc.prems(1) show ?thesis by (simp add: fire_def)
  qed
  from r s1(2) show ?case by (rule Suc.IH)
qed

lemma ab_reaches_overshoot: "reachable ab_animation (ab_at ''ab'' 3 False 2000 Pause)"
proof -
  have "reachable ab_animation (ab_at [] 1 False 80 Tick)"
    using ab_start by (rule reachable.started)
  moreover have "run 2 (ab_at [] 1 False 80 Tick) = Inr (ab_at ''ab'' 3 False 2000 Pause)"
    by (simp add: numeral_2_eq_2 ab_fire)
  ultimately show ?thesis by (rule reachable_run)
qed

text \<open>
  Counterexample to C1 as stated: the animation of \<open>ab\<close> reaches, after its third
  call of \<open>type()\<close>, a state whose \<open>charIndex\<close> is 3, above the length 2 of the phrase.
\<close>

theorem charIndex_exceeds_phrase:
  "reachable ab_animation (ab_at ''ab'' 3 False 2000 Pause) \<and>
   \<not> charIndex (ab_at ''ab'' 3 False 2000 Pause)
       \<le> int (length (texts (ab_at ''ab'' 3 False 2000 Pause)
                        ! textIndex (ab_at ''ab'' 3 False 2000 Pause)))"
  using ab_reaches_overshoot by (simp add: ab_at_def)

lemma run_idle: "timers s = [] \<Longrightarrow> run n s = Inr s"
  by (induction n) (simp_all add: fire_def)

lemma frames_from_idle: "timers s = [] \<Longrightarrow> frames_from n s = []"
  by (cases n) simp_all

lemma frames_from_add:
  "frames_from (m + n) s =
     frames_from m s @ (case run m s of Inl e \<Rightarrow> [] | Inr s' \<Rightarrow> frames_from n s')"
proof (induction m arbitrary: s)
  case 0
  show ?case by simp
next
  case (Suc m)
  show ?case
  proof (cases "timers s")
    case Nil
    then show ?thesis
      using run_idle[OF Nil, of "Suc m"] frames_from_idle[OF Nil, of n]
      by (simp del: run.simps)
  next
    case (Cons t ts)
    then show ?thesis
      by (cases "fire 0 s") (simp_all add: Suc.IH)
  qed
qed

text \<open>
  Claim C2, amended. For the phrase sequence \<open>["ab"]\<close> the rendered sequence of
  (mode, cursor position) pairs, from the initial state (typing, index 0, cursor 0), is
  Typing@0, Typing@1, Typing@2 (pause), Deleting@3, Deleting@2, Deleting@1, and then the
  same cycle repeats from Typing@0.
\<close>

theorem ab_rendered_sequence:
  "rendered 6 ab_animation =
     [(Typing, 0), (Typing, 1), (Typing, 2), (Deleting, 3), (Deleting, 2), (Deleting, 1)] \<and>
   (\<forall>n. rendered (6 + n) ab_animation = rendered 6 ab_animation @ rendered n ab_animation)"
proof (intro conjI allI)
  show "rendered 6 ab_animation =
     [(Typing, 0), (Typing, 1), (Typing, 2), (Deleting, 3), (Deleting, 2), (Deleting, 1)]"
    by code_simp
next
  fix n
  let ?s1 = "ab_at [] 1 False 80 Tick"
  let ?s5 = "ab_at ''a'' 0 False 80 Tick"
  have r5: "run 5 ?s1 = Inr ?s5"
    by code_simp
  have t5: "timers ?s5 = [\<lparr>delay = 80, handler = Tick\<rparr>]"
    by (simp add: ab_at_def)
  have e5: "frame ?s5 = frame ab_animation"
    by (simp add: frame_def ab_at_def ab_animation_def TypingAnimation_def)
  have f5: "frames_from (Suc m) ?s5 = frame ab_animation # frames_from m ?s1" for m
    by (simp add: t5 e5 ab_fire(6))
  have six: "rendered 6 ab_animation = frame ab_animation # frames_from 5 ?s1"
    using ab_start by (simp add: rendered_def eval_nat_numeral(3) numeral_eq_Suc del: frames_from.simps)
  show "rendered (6 + n) ab_animation = rendered 6 ab_animation @ rendered n ab_animation"
  proof (cases n)
    case 0
    then show ?thesis by (simp add: rendered_def)
  next
    case (Suc m)
    have "rendered (6 + n) ab_animation = frame ab_animation # frames_from (5 + Suc m) ?s1"
      using ab_start Suc
      by (simp add: rendered_def del: frames_from.simps)
    also have "frames_from (5 + Suc m) ?s1 = frames_from 5 ?s1 @ frames_from (Suc m) ?s5"
      by (simp only: frames_from_add r5 sum.case)
    also have "frames_from (Suc m) ?s5 = rendered n ab_animation"
      using ab_start Suc by (simp only: f5 rendered_def nat.case sum.case)
    finally show ?thesis
      by (simp only: six append_Cons)
  qed
qed

text \<open>
  Counterexample to C2 as stated: the first five frames are not Typing@0, Typing@1,
  Typing@2, Deleting@1, Deleting@0.
\<close>

theorem ab_rendered_counterexample:
  "rendered 5 ab_animation \<noteq>
     [(Typing, 0), (Typing, 1), (Typing, 2), (Deleting, 1), (Deleting, 0)]"
  by code_simp

text \<open>
  Claim C1, amended. For every phrase sequence of length at least 1, in every reachable
  state of the animation \<open>textIndex\<close> selects a phrase and \<open>charIndex\<close> lies in
  \<open>[0, length(currentPhrase) + 1]\<close>: it never goes below 0 and never exceeds the length
  of the current phrase by more than one. The value \<open>length + 1\<close> is taken only while
  the pause after the last typed character is pending, still in typing mode.
\<close>

theorem charIndex_bounds:
  assumes "ts \<noteq> []" and "reachable (TypingAnimation el ts a b) s"
  shows "texts s = ts \<and> textIndex s < length ts \<and> 0 \<le> charIndex s \<and>
         charIndex s \<le> int (length (ts ! textIndex s)) + 1 \<and>
         (charIndex s = int (length (ts ! textIndex s)) + 1 \<longrightarrow>
            \<not> isDeleting s \<and> map handler (timers s) = [Pause])"
proof -
  from reachable_good[OF assms] have ts: "texts s = ts"
    and disj: "timers s = [] \<and> textIndex s = 0 \<and> charIndex s = 0 \<and> \<not> isDeleting s \<or> good s"
    by simp_all
  from disj show ?thesis
  proof
    assume "timers s = [] \<and> textIndex s = 0 \<and> charIndex s = 0 \<and> \<not> isDeleting s"
    with assms(1) ts show ?thesis by simp
  next
    assume g: "good s"
    then obtain t where t: "timers s = [t]"
      using good_timers by blast
    from g t ts show ?thesis
      by (cases "handler t") (auto simp: good_def phrase_len_def split: if_splits)
  qed
qed

theorem charIndex_bounds_witness:
  "[''ab''] \<noteq> [] \<and> reachable ab_animation (ab_at ''ab'' 3 False 2000 Pause) \<and>
   charIndex (ab_at ''ab'' 3 False 2000 Pause) =
     int (length ([''ab''] ! textIndex (ab_at ''ab'' 3 False 2000 Pause))) + 1 \<and>
   \<not> isDeleting (ab_at ''ab'' 3 False 2000 Pause) \<and>
   map handler (timers (ab_at ''ab'' 3 False 2000 Pause)) = [Pause]"
  using charIndex_bounds[of "[''ab'']" cursor 80 50 "ab_at ''ab'' 3 False 2000 Pause"]
    ab_reaches_overshoot
  by (simp add: ab_animation_def ab_at_def)

lemma type_schedules_one:
  assumes "type s = Inr s'"
  shows "\<exists>t. timers s' = timers s @ [t] \<and>
           (handler t = Pause \<and> delay t = 2000 \<or> handler t = Tick \<and> delay t = speed s')"
  using assms
  by (auto simp: type_def Let_def setTimeout_def render_def speed_def
      split: option.splits if_splits)

text \<open>
  Claim C6. Every call of \<open>type()\<close> that returns schedules exactly one timer, either the
  pause of 2000 ms or the next tick at the speed of the new mode, never both. Hence at
  most one timer of the animation is pending in every reachable state; for a non-empty
  phrase sequence \<open>start()\<close> leaves exactly one pending, exactly one is pending whenever
  one can fire, and the callback that fires, which runs to completion, leaves exactly one
  pending again.
\<close>

theorem one_pending_timer:
  "(type s = Inr s' \<longrightarrow>
      (\<exists>t. timers s' = timers s @ [t] \<and>
         (handler t = Pause \<and> delay t = 2000 \<or> handler t = Tick \<and> delay t = speed s')))
   \<and> (reachable (TypingAnimation el ts a b) r \<longrightarrow> length (timers r) \<le> 1)
   \<and> (ts \<noteq> [] \<and> reachable (TypingAnimation el ts a b) r \<and> k < length (timers r) \<longrightarrow>
        length (timers r) = 1 \<and> (\<exists>r'. fire k r = Inr r' \<and> length (timers r') = 1))
   \<and> (ts \<noteq> [] \<longrightarrow>
        (\<exists>s1. start (TypingAnimation el ts a b) = Inr s1 \<and> length (timers s1) = 1))"
proof (intro conjI impI)
  assume "ts \<noteq> []"
  from good_start[OF this, of el a b] obtain s1 where
    "start (TypingAnimation el ts a b) = Inr s1" "good s1"
    by blast
  with good_timers[of s1]
  show "\<exists>s1. start (TypingAnimation el ts a b) = Inr s1 \<and> length (timers s1) = 1"
    by auto
next
  assume "type s = Inr s'"
  then show "\<exists>t. timers s' = timers s @ [t] \<and>
         (handler t = Pause \<and> delay t = 2000 \<or> handler t = Tick \<and> delay t = speed s')"
    by (rule type_schedules_one)
next
  assume r: "reachable (TypingAnimation el ts a b) r"
  show "length (timers r) \<le> 1"
  proof (cases "ts = []")
    case True
    with r have "r = TypingAnimation el [] a b"
      by (simp add: reachable_empty)
    then show ?thesis by simp
  next
    case False
    from reachable_good[OF False r] good_timers[of r] show ?thesis
      by auto
  qed
next
  assume h: "ts \<noteq> [] \<and> reachable (TypingAnimation el ts a b) r \<and> k < length (timers r)"
  with reachable_good[of ts el a b r] have g: "good r"
    by auto
  with good_timers[of r] show "length (timers r) = 1" by auto
  from good_fire[OF g] h obtain r' where "fire k r = Inr r'" "good r'"
    by blast
  with good_timers[of r'] show "\<exists>r'. fire k r = Inr r' \<and> length (timers r') = 1"
    by auto
qed

theorem one_pending_timer_witness:
  "type ab_animation = Inr (ab_at [] 1 False 80 Tick) \<and>
   timers (ab_at [] 1 False 80 Tick) = timers ab_animation @ [\<lparr>delay = 80, handler = Tick\<rparr>] \<and>
   [''ab''] \<noteq> [] \<and> reachable ab_animation (ab_at ''ab'' 3 False 2000 Pause) \<and>
   0 < length (timers (ab_at ''ab'' 3 False 2000 Pause)) \<and>
   length (timers (ab_at ''ab'' 3 False 2000 Pause)) = 1 \<and>
   fire 0 (ab_at ''ab'' 3 False 2000 Pause) = Inr (ab_at ''ab'' 2 True 50 Tick) \<and>
   length (timers (ab_at ''ab'' 2 True 50 Tick)) = 1 \<and>
   start ab_animation = Inr (ab_at [] 1 False 80 Tick) \<and>
   length (timers (ab_at [] 1 False 80 Tick)) = 1"
  using one_pending_timer[of ab_animation "ab_at [] 1 False 80 Tick" cursor "[''ab'']" 80 50
      "ab_at ''ab'' 3 False 2000 Pause" 0]
    ab_reaches_overshoot ab_start ab_fire(3)
  by (simp add: start_def) (simp add: ab_animation_def ab_at_def TypingAnimation_def)

text \<open>
  Claim C7. When the phrase sequence given to the constructor is non-empty, in every
  reachable state \<open>texts[textIndex]\<close> is a defined string, \<open>start()\<close> returns, and every
  timer callback that can fire returns: no step throws. For the empty phrase sequence the
  very first step reads the undefined \<open>texts[0]\<close> and throws a \<open>TypeError\<close>.
\<close>

theorem typing_no_error_path:
  "(ts \<noteq> [] \<and> reachable (TypingAnimation el ts a b) s \<longrightarrow>
      (\<exists>t. index (texts s) (textIndex s) = Some t) \<and>
      (\<exists>s1. start (TypingAnimation el ts a b) = Inr s1) \<and>
      (\<forall>k<length (timers s). \<exists>s'. fire k s = Inr s'))
   \<and> start (TypingAnimation el [] a b) = Inl TypeError"
proof (intro conjI impI allI)
  assume h: "ts \<noteq> [] \<and> reachable (TypingAnimation el ts a b) s"
  then have "textIndex s < length (texts s)"
    using reachable_good[of ts el a b s] by (auto simp: good_def)
  then show "\<exists>t. index (texts s) (textIndex s) = Some t"
    by (simp add: index_def)
  from h good_start[of ts el a b] show "\<exists>s1. start (TypingAnimation el ts a b) = Inr s1"
    by blast
  fix k assume k: "k < length (timers s)"
  with h reachable_good[of ts el a b s] have "good s"
    by auto
  from good_fire[OF this k] show "\<exists>s'. fire k s = Inr s'" by blast
next
  show "start (TypingAnimation el [] a b) = Inl TypeError"
    by (simp add: start_def type_def index_def)
qed

theorem typing_no_error_path_witness:
  "[''ab''] \<noteq> [] \<and> reachable ab_animation (ab_at ''ab'' 3 False 2000 Pause) \<and>
   index (texts (ab_at ''ab'' 3 False 2000 Pause)) (textIndex (ab_at ''ab'' 3 False 2000 Pause))
     = Some ''ab'' \<and>
   start ab_animation = Inr (ab_at [] 1 False 80 Tick) \<and>
   0 < length (timers (ab_at ''ab'' 3 False 2000 Pause)) \<and>
   fire 0 (ab_at ''ab'' 3 False 2000 Pause) = Inr (ab_at ''ab'' 2 True 50 Tick)"
  using typing_no_error_path[of "[''ab'']" cursor 80 50 "ab_at ''ab'' 3 False 2000 Pause"]
    ab_reaches_overshoot ab_start ab_fire(3)
  by (simp add: index_def ab_at_def)

lemma substring_prefix: "prefix (substring s 0 c) s"
  by (simp add: substring_0 take_is_prefix)

lemma type_renders:
  assumes "index (texts e) (textIndex e) = Some currentText"
  shows "\<exists>s'. type e = Inr s' \<and> innerHTML s' = substring currentText 0 (charIndex e) @ cursor"
  using assms
  by (simp add: type_def Let_def setTimeout_def render_def)

lemma fire_renders_prefix:
  assumes "ts \<noteq> []" and "reachable (TypingAnimation el ts a b) s"
    and "k < length (timers s)"
  shows "\<exists>s'. fire k s = Inr s' \<and>
           (let e = entry (handler (timers s ! k)) s; currentText = ts ! textIndex e
            in innerHTML s' = substring currentText 0 (charIndex e) @ cursor \<and>
               prefix (substring currentText 0 (charIndex e)) currentText \<and>
               (charIndex e = int (length currentText) + 1 \<longrightarrow>
                  innerHTML s' = currentText @ cursor))"
proof -
  from reachable_good[OF assms(1,2)] assms(3) have ts: "texts s = ts" and g: "good s"
    by auto
  let ?f = "handler (timers s ! k)"
  let ?s = "s\<lparr>timers := take k (timers s) @ drop (Suc k) (timers s)\<rparr>"
  let ?t = "ts ! textIndex s"
  have fields: "texts (entry ?f ?s) = ts" "textIndex (entry ?f ?s) = textIndex s"
    "charIndex (entry ?f ?s) = charIndex s" "textIndex (entry ?f s) = textIndex s"
    "charIndex (entry ?f s) = charIndex s"
    using ts by (cases ?f; simp)+
  from g ts have "index (texts (entry ?f ?s)) (textIndex (entry ?f ?s)) = Some ?t"
    by (simp add: fields index_def good_def)
  from type_renders[OF this] assms(3) obtain s' where
    s': "fire k s = Inr s'" "innerHTML s' = substring ?t 0 (charIndex s) @ cursor"
    by (auto simp: fire_def run_callback_def fields)
  have "charIndex s = int (length ?t) + 1 \<Longrightarrow> substring ?t 0 (charIndex s) = ?t"
    by (simp add: substring_0)
  with s' show ?thesis
    by (auto simp: Let_def fields substring_prefix)
qed

text \<open>
  Claim C10. For a non-empty phrase sequence, \<open>start()\<close> and every timer callback of a
  reachable state return, and the text the step leaves in the element is
  \<open>currentText.substring(0, charIndex)\<close> followed by the cursor marker, where
  \<open>charIndex\<close> is the value with which \<open>type()\<close> is entered. That substring is a prefix
  of the current phrase; at the overshoot state, \<open>charIndex = length + 1\<close>, it is the
  whole phrase.
\<close>

theorem rendered_text_is_prefix:
  assumes "ts \<noteq> []"
  shows "(\<exists>s1. start (TypingAnimation el ts a b) = Inr s1 \<and>
            innerHTML s1 = substring (ts ! 0) 0 0 @ cursor) \<and>
         (reachable (TypingAnimation el ts a b) s \<and> k < length (timers s) \<longrightarrow>
            (\<exists>s'. fire k s = Inr s' \<and>
               (let e = entry (handler (timers s ! k)) s; currentText = ts ! textIndex e
                in innerHTML s' = substring currentText 0 (charIndex e) @ cursor \<and>
                   prefix (substring currentText 0 (charIndex e)) currentText \<and>
                   (charIndex e = int (length currentText) + 1 \<longrightarrow>
                      innerHTML s' = currentText @ cursor))))"
proof (intro conjI impI)
  from assms have "index (texts (TypingAnimation el ts a b)) (textIndex (TypingAnimation el ts a b))
      = Some (ts ! 0)"
    by (simp add: index_def)
  from type_renders[OF this]
  show "\<exists>s1. start (TypingAnimation el ts a b) = Inr s1 \<and>
            innerHTML s1 = substring (ts ! 0) 0 0 @ cursor"
    by (simp add: start_def)
next
  assume "reachable (TypingAnimation el ts a b) s \<and> k < length (timers s)"
  then have "reachable (TypingAnimation el ts a b) s" "k < length (timers s)"
    by simp_all
  with assms show "\<exists>s'. fire k s = Inr s' \<and>
               (let e = entry (handler (timers s ! k)) s; currentText = ts ! textIndex e
                in innerHTML s' = substring currentText 0 (charIndex e) @ cursor \<and>
                   prefix (substring currentText 0 (charIndex e)) currentText \<and>
                   (charIndex e = int (length currentText) + 1 \<longrightarrow>
                      innerHTML s' = currentText @ cursor))"
    by (rule fire_renders_prefix)
qed

theorem rendered_text_is_prefix_witness:
  "[''ab''] \<noteq> [] \<and> reachable ab_animation (ab_at ''ab'' 3 False 2000 Pause) \<and>
   0 < length (timers (ab_at ''ab'' 3 False 2000 Pause)) \<and>
   charIndex (entry Pause (ab_at ''ab'' 3 False 2000 Pause)) = int (length ''ab'') + 1 \<and>
   fire 0 (ab_at ''ab'' 3 False 2000 Pause) = Inr (ab_at ''ab'' 2 True 50 Tick) \<and>
   innerHTML (ab_at ''ab'' 2 True 50 Tick) = ''ab'' @ cursor \<and>
   start ab_animation = Inr (ab_at [] 1 False 80 Tick) \<and>
   innerHTML (ab_at [] 1 False 80 Tick) = cursor"
  using rendered_text_is_prefix[of "[''ab'']" cursor 80 50 "ab_at ''ab'' 3 False 2000 Pause" 0]
    ab_reaches_overshoot ab_fire(3) ab_start
  by (simp add: ab_at_def)

lemma run_cycles_index:
  assumes "phrase_start s"
  shows "\<exists>s'. run_cycles n s = Inr s' \<and> same_config s s' \<and> phrase_start s' \<and>
           textIndex s' = (textIndex s + n) mod length (texts s)"
  using assms
proof (induction n arbitrary: s)
  case 0
  then show ?case by (simp add: same_config_def phrase_start_def)
next
  case (Suc n)
  from run_cycle[OF Suc.prems] obtain s1 where
    s1: "run (cycle_steps s) s = Inr s1" "same_config s s1" "phrase_start s1"
        "textIndex s1 = Suc (textIndex s) mod length (texts s)"
    by blast
  from Suc.IH[OF s1(3)] obtain s2 where
    s2: "run_cycles n s1 = Inr s2" "same_config s1 s2" "phrase_start s2"
        "textIndex s2 = (textIndex s1 + n) mod length (texts s1)"
    by blast
  have "texts s1 = texts s"
    using s1(2) by (simp add: same_config_def)
  then have "textIndex s2 = (textIndex s + Suc n) mod length (texts s)"
    using s1(4) s2(4) by (simp add: mod_add_left_eq)
  with s1 s2 show ?case
    by (auto intro: same_config_trans)
qed

lemma first_cycle:
  assumes "ts \<noteq> []"
  shows "\<exists>s1 s'. start (TypingAnimation el ts a b) = Inr s1 \<and>
           run (cycle_steps (TypingAnimation el ts a b) - 1) s1 = Inr s' \<and>
           texts s' = ts \<and> phrase_start s' \<and> textIndex s' = 1 mod length ts"
proof -
  let ?L = "length (ts ! 0)"
  let ?s0 = "TypingAnimation el ts a b"
  obtain s1 where s1: "start ?s0 = Inr s1"
    using good_start[OF assms] by blast
  have c: "cycle_steps ?s0 - 1 = ?L + (?L + 1)"
    by (simp add: cycle_steps_def)
  have s1_fields: "texts s1 = ts" "textIndex s1 = 0" "charIndex s1 = 1" "\<not> isDeleting s1"
    "typingSpeed s1 = a"
    using s1 assms
    by (auto simp: start_def type_def index_def Let_def setTimeout_def render_def
        split: if_splits)
  have "\<exists>p. run ?L s1 = Inr p \<and> same_config s1 p \<and> textIndex p = textIndex s1 \<and> pause_state p"
  proof (cases "?L = 0")
    case True
    with s1 assms have "pause_state s1"
      by (auto simp: start_def type_def index_def Let_def setTimeout_def render_def
        pause_state_def phrase_len_def split: if_splits)
    with True show ?thesis by (simp add: same_config_def)
  next
    case False
    with s1 assms have tm: "timers s1 = [\<lparr>delay = typingSpeed s1, handler = Tick\<rparr>]"
      by (auto simp: start_def type_def index_def Let_def setTimeout_def render_def speed_def
          split: if_splits)
    have "\<exists>p. run (phrase_len s1 - 1 + 1) s1 = Inr p \<and> same_config s1 p \<and>
           textIndex p = textIndex s1 \<and> pause_state p"
      using s1_fields tm assms False
      by (intro run_to_pause) (simp_all add: phrase_len_def Suc_le_eq)
    moreover have "phrase_len s1 - 1 + 1 = ?L"
      using False s1_fields by (simp add: phrase_len_def)
    ultimately show ?thesis by (simp only:)
  qed
  then obtain p where p: "run ?L s1 = Inr p" "same_config s1 p" "textIndex p = textIndex s1"
      "pause_state p"
    by blast
  from run_from_pause[OF p(4)] obtain s' where
    s': "run (phrase_len p + 1) p = Inr s'" "same_config p s'" "phrase_start s'"
        "textIndex s' = Suc (textIndex p) mod length (texts p)"
    by blast
  have len: "phrase_len p = ?L" "texts p = ts" "texts s' = ts"
    using p s' s1_fields by (simp_all add: same_config_def phrase_len_def)
  have "run (?L + (phrase_len p + 1)) s1 = Inr s'"
    using p(1) s'(1) by (rule run_seq)
  then have "run (cycle_steps ?s0 - 1) s1 = Inr s'"
    unfolding c len .
  with s1 s' p len s1_fields show ?thesis
    by auto
qed

lemma reachable_run_cycles:
  "reachable s0 s \<Longrightarrow> run_cycles n s = Inr s' \<Longrightarrow> reachable s0 s'"
proof (induction n arbitrary: s)
  case 0
  then show ?case by simp
next
  case (Suc n)
  from Suc.prems(2) obtain s1 where
    s1: "run (cycle_steps s) s = Inr s1" "run_cycles n s1 = Inr s'"
    by (auto split: sum.splits)
  from Suc.prems(1) s1(1) have "reachable s0 s1"
    by (rule reachable_run)
  then show ?case
    using s1(2) by (rule Suc.IH)
qed

text \<open>
  Claim C5. From the start of phrase \<open>i\<close> (typing mode, cursor 0, a tick pending), fully
  typing and fully deleting the phrase, \<open>2 * (length + 1)\<close> calls of \<open>type()\<close>, leads to
  the start of phrase \<open>(i + 1) mod N\<close>. Hence \<open>N\<close> cycles from phrase 0 lead back to
  phrase 0, and for \<open>N = 1\<close> every number of cycles completes on the same phrase. The
  first cycle of a constructed animation, whose first call of \<open>type()\<close> is made by
  \<open>start()\<close>, ends at the start of phrase \<open>1 mod N\<close>, and \<open>n\<close> further cycles reach the
  start of phrase \<open>(1 + n) mod N\<close>: the animation visits the phrases in order, forever.
\<close>

theorem phrase_index_advances:
  "(phrase_start s \<longrightarrow>
      (\<exists>s'. run (cycle_steps s) s = Inr s' \<and> texts s' = texts s \<and> phrase_start s' \<and>
            textIndex s' = (textIndex s + 1) mod length (texts s)))
   \<and> (phrase_start s \<and> textIndex s = 0 \<longrightarrow>
      (\<exists>s'. run_cycles (length (texts s)) s = Inr s' \<and> texts s' = texts s \<and>
            phrase_start s' \<and> textIndex s' = 0))
   \<and> (phrase_start s \<and> length (texts s) = 1 \<longrightarrow>
      (\<forall>n. \<exists>s'. run_cycles n s = Inr s' \<and> texts s' = texts s \<and> phrase_start s' \<and>
            textIndex s' = textIndex s))
   \<and> (ts \<noteq> [] \<longrightarrow>
      (\<exists>s1 s'. start (TypingAnimation el ts a b) = Inr s1 \<and>
          run (cycle_steps (TypingAnimation el ts a b) - 1) s1 = Inr s' \<and>
          texts s' = ts \<and> phrase_start s' \<and> textIndex s' = 1 mod length ts \<and>
          (\<forall>n. \<exists>s''. run_cycles n s' = Inr s'' \<and>
             reachable (TypingAnimation el ts a b) s'' \<and> phrase_start s'' \<and>
             textIndex s'' = (1 + n) mod length ts)))"
proof (intro conjI impI allI)
  assume "phrase_start s"
  from run_cycle[OF this]
  show "\<exists>s'. run (cycle_steps s) s = Inr s' \<and> texts s' = texts s \<and> phrase_start s' \<and>
            textIndex s' = (textIndex s + 1) mod length (texts s)"
    by (auto simp: same_config_def)
next
  assume h: "phrase_start s \<and> textIndex s = 0"
  with run_cycles_index[of s "length (texts s)"]
  show "\<exists>s'. run_cycles (length (texts s)) s = Inr s' \<and> texts s' = texts s \<and>
            phrase_start s' \<and> textIndex s' = 0"
    by (auto simp: same_config_def)
next
  fix n
  assume h: "phrase_start s \<and> length (texts s) = 1"
  then have "textIndex s = 0"
    by (simp add: phrase_start_def)
  with h run_cycles_index[of s n]
  show "\<exists>s'. run_cycles n s = Inr s' \<and> texts s' = texts s \<and> phrase_start s' \<and>
            textIndex s' = textIndex s"
    by (auto simp: same_config_def)
next
  let ?s0 = "TypingAnimation el ts a b"
  assume "ts \<noteq> []"
  from first_cycle[OF this, of el a b] obtain s1 s' where
    c: "start ?s0 = Inr s1" "run (cycle_steps ?s0 - 1) s1 = Inr s'" "texts s' = ts"
       "phrase_start s'" "textIndex s' = 1 mod length ts"
    by blast
  from c(1) have "reachable ?s0 s1"
    by (rule reachable.started)
  then have r: "reachable ?s0 s'"
    using c(2) by (rule reachable_run)
  have "\<exists>s''. run_cycles n s' = Inr s'' \<and> reachable ?s0 s'' \<and> phrase_start s'' \<and>
          textIndex s'' = (1 + n) mod length ts" for n
  proof -
    from run_cycles_index[OF c(4), of n] obtain s'' where
      s'': "run_cycles n s' = Inr s''" "phrase_start s''"
           "textIndex s'' = (textIndex s' + n) mod length (texts s')"
      by blast
    from r s''(1) have "reachable ?s0 s''"
      by (rule reachable_run_cycles)
    moreover have "textIndex s'' = (1 + n) mod length ts"
      using s''(3) c(3,5) by (simp add: mod_add_left_eq)
    ultimately show ?thesis
      using s'' by blast
  qed
  with c show "\<exists>s1 s'. start ?s0 = Inr s1 \<and>
          run (cycle_steps ?s0 - 1) s1 = Inr s' \<and>
          texts s' = ts \<and> phrase_start s' \<and> textIndex s' = 1 mod length ts \<and>
          (\<forall>n. \<exists>s''. run_cycles n s' = Inr s'' \<and> reachable ?s0 s'' \<and> phrase_start s'' \<and>
             textIndex s'' = (1 + n) mod length ts)"
    by blast
qed

lemma ab_cycle:
  "run (cycle_steps (ab_at ''a'' 0 False 80 Tick)) (ab_at ''a'' 0 False 80 Tick)
     = Inr (ab_at ''a'' 0 False 80 Tick)"
  "run_cycles 1 (ab_at ''a'' 0 False 80 Tick) = Inr (ab_at ''a'' 0 False 80 Tick)"
  "run (cycle_steps ab_animation - 1) (ab_at [] 1 False 80 Tick)
     = Inr (ab_at ''a'' 0 False 80 Tick)"
  by code_simp+

theorem phrase_index_advances_witness:
  "phrase_start (ab_at ''a'' 0 False 80 Tick) \<and>
   textIndex (ab_at ''a'' 0 False 80 Tick) = 0 \<and>
   length (texts (ab_at ''a'' 0 False 80 Tick)) = 1 \<and> [''ab''] \<noteq> [] \<and>
   run (cycle_steps (ab_at ''a'' 0 False 80 Tick)) (ab_at ''a'' 0 False 80 Tick)
     = Inr (ab_at ''a'' 0 False 80 Tick) \<and>
   run_cycles 1 (ab_at ''a'' 0 False 80 Tick) = Inr (ab_at ''a'' 0 False 80 Tick) \<and>
   start ab_animation = Inr (ab_at [] 1 False 80 Tick) \<and>
   run (cycle_steps ab_animation - 1) (ab_at [] 1 False 80 Tick)
     = Inr (ab_at ''a'' 0 False 80 Tick)"
proof -
  have "phrase_start (ab_at ''a'' 0 False 80 Tick)"
    "textIndex (ab_at ''a'' 0 False 80 Tick) = 0"
    "length (texts (ab_at ''a'' 0 False 80 Tick)) = 1"
    by (simp_all add: phrase_start_def ab_at_def)
  then show ?thesis
    using phrase_index_advances[of "ab_at ''a'' 0 False 80 Tick" "[''ab'']" cursor 80 50]
      ab_cycle ab_start
    by simp
qed
subsection \<open>RevealOnScroll\<close>

lemma scroll_entry_revealed: "revealed t pg \<Longrightarrow> revealed t (scroll_entry e pg)"
  by (simp add: revealed_def scroll_entry_def add_visible_def classList_add_def)

lemma skill_entry_revealed: "revealed t pg \<Longrightarrow> revealed t (skill_entry e pg)"
  by (simp add: revealed_def skill_entry_def add_visible_def classList_add_def Let_def
      set_skill_width_def split: option.splits)

lemma foldl_preserves:
  assumes "\<And>x s. P s \<Longrightarrow> P (f s x)" "P s"
  shows "P (foldl f s xs)"
  using assms(2) by (induction xs arbitrary: s) (simp_all add: assms(1))

lemma deliver_revealed: "revealed t pg \<Longrightarrow> revealed t (deliver ev pg)"
  by (cases ev)
    (auto simp: ScrollAnimator_callback_def SkillBarsAnimator_callback_def
      intro!: foldl_preserves[where P = "revealed t"] scroll_entry_revealed skill_entry_revealed)

lemma add_visible_sets: "revealed t (add_visible t pg)"
  by (simp add: revealed_def add_visible_def classList_add_def)

lemma skill_entry_sets: "revealed t (skill_entry \<lparr>target = t, isIntersecting = True\<rparr> pg)"
  by (simp add: revealed_def skill_entry_def add_visible_def classList_add_def Let_def
      set_skill_width_def split: option.splits)

lemma deliver_all_revealed: "revealed t pg \<Longrightarrow> revealed t (deliver_all evs pg)"
  unfolding deliver_all_def
  by (intro foldl_preserves[where P = "revealed t"] deliver_revealed)

text \<open>
  Claim C4. For every reveal target, an intersecting entry delivered to either callback
  sets the \<open>visible\<close> marker, and once the marker is set no sequence of further
  visibility changes, delivered to the callbacks of ScrollAnimator and SkillBarsAnimator
  in any order, removes it.
\<close>

theorem revealed_is_latched:
  "''visible'' \<in> set (classList (elements
      (deliver_all evs (scroll_entry \<lparr>target = t, isIntersecting = True\<rparr> pg)) t)) \<and>
   ''visible'' \<in> set (classList (elements
      (deliver_all evs (skill_entry \<lparr>target = t, isIntersecting = True\<rparr> pg)) t)) \<and>
   (''visible'' \<in> set (classList (elements pg t)) \<longrightarrow>
    ''visible'' \<in> set (classList (elements (deliver_all evs pg) t)))"
proof (intro conjI impI)
  have "revealed t (scroll_entry \<lparr>target = t, isIntersecting = True\<rparr> pg)"
    by (simp add: scroll_entry_def add_visible_sets)
  then have "revealed t (deliver_all evs (scroll_entry \<lparr>target = t, isIntersecting = True\<rparr> pg))"
    by (rule deliver_all_revealed)
  then show "''visible'' \<in> set (classList (elements
      (deliver_all evs (scroll_entry \<lparr>target = t, isIntersecting = True\<rparr> pg)) t))"
    by (simp add: revealed_def)
next
  have "revealed t (deliver_all evs (skill_entry \<lparr>target = t, isIntersecting = True\<rparr> pg))"
    using skill_entry_sets by (rule deliver_all_revealed)
  then show "''visible'' \<in> set (classList (elements
      (deliver_all evs (skill_entry \<lparr>target = t, isIntersecting = True\<rparr> pg)) t))"
    by (simp add: revealed_def)
next
  assume "''visible'' \<in> set (classList (elements pg t))"
  then have "revealed t pg" by (simp add: revealed_def)
  then have "revealed t (deliver_all evs pg)"
    by (rule deliver_all_revealed)
  then show "''visible'' \<in> set (classList (elements (deliver_all evs pg) t))"
    by (simp add: revealed_def)
qed

lemma card_page_events:
  "classList (elements (deliver_all [Skill [enters 0], Skill [leaves 0], Scroll [leaves 0]]
      card_page) 0) = [''skill-card'', ''fade-in'', ''visible'']"
  "classList (elements (deliver_all [Skill [enters 0]] card_page) 0)
     = [''skill-card'', ''fade-in'', ''visible'']"
  "writes (deliver_all [Skill [enters 0], Skill [leaves 0], Skill [enters 0]] card_page)
     = [(0, ''--skill-width'', Some ''88%''), (0, ''--skill-width'', Some ''88%'')]"
  by code_simp+

theorem revealed_is_latched_witness:
  "''visible'' \<in> set (classList (elements (deliver_all [Skill [enters 0]] card_page) 0)) \<and>
   ''visible'' \<in> set (classList (elements
      (deliver_all [Skill [leaves 0], Scroll [leaves 0]]
         (deliver_all [Skill [enters 0]] card_page)) 0))"
  using revealed_is_latched[of "[Skill [leaves 0], Scroll [leaves 0]]" 0
      "deliver_all [Skill [enters 0]] card_page"]
  by (simp add: card_page_events(2))

lemma skill_entry_noop:
  assumes "width_applied t pg"
  shows "elements (skill_entry e pg) t = elements pg t"
proof (cases "isIntersecting e \<and> target e = t")
  case False
  then show ?thesis
    by (auto simp: skill_entry_def add_visible_def Let_def set_skill_width_def
        split: option.splits)
next
  case True
  with assms have v: "add_visible (target e) pg = pg"
    by (simp add: add_visible_def width_applied_def revealed_def classList_add_def)
  show ?thesis
  proof (cases "skill_progress (elements pg t)")
    case None
    with True v show ?thesis by (simp add: skill_entry_def Let_def)
  next
    case (Some p)
    with assms have "style p ''--skill-width'' = stored (data_width p)"
      by (simp add: width_applied_def)
    then have "(style p)(''--skill-width'' := stored (data_width p)) = style p"
      by (metis fun_upd_triv)
    then have "setProperty ''--skill-width'' (data_width p) p = p"
      by (simp add: setProperty_def)
    with True v Some show ?thesis
      by (simp add: skill_entry_def Let_def set_skill_width_def getAttribute_data_width_def)
  qed
qed

lemma scroll_entry_noop:
  assumes "width_applied t pg"
  shows "elements (scroll_entry e pg) t = elements pg t"
  using assms
  by (auto simp: scroll_entry_def add_visible_def width_applied_def revealed_def classList_add_def)

lemma width_applied_cong:
  "elements pg' t = elements pg t \<Longrightarrow> width_applied t pg \<Longrightarrow> width_applied t pg'"
  by (simp add: width_applied_def revealed_def)

lemma deliver_noop:
  assumes "width_applied t pg"
  shows "elements (deliver ev pg) t = elements pg t"
proof -
  let ?P = "\<lambda>s. elements s t = elements pg t"
  have keep: "?P s \<Longrightarrow> ?P (skill_entry e s)" "?P s \<Longrightarrow> ?P (scroll_entry e s)" for s e
    using skill_entry_noop[of t s e] scroll_entry_noop[of t s e] assms
    by (auto dest: width_applied_cong)
  show ?thesis
  proof (cases ev)
    case (Scroll entries)
    have "?P (foldl (\<lambda>pg e. scroll_entry e pg) pg entries)"
      by (rule foldl_preserves[where P = ?P]) (simp_all add: keep)
    with Scroll show ?thesis by (simp add: ScrollAnimator_callback_def)
  next
    case (Skill entries)
    have "?P (foldl (\<lambda>pg e. skill_entry e pg) pg entries)"
      by (rule foldl_preserves[where P = ?P]) (simp_all add: keep)
    with Skill show ?thesis by (simp add: SkillBarsAnimator_callback_def)
  qed
qed

lemma deliver_all_noop:
  assumes "width_applied t pg"
  shows "elements (deliver_all evs pg) t = elements pg t"
proof -
  let ?P = "\<lambda>s. elements s t = elements pg t"
  have "?P s \<Longrightarrow> ?P (deliver ev s)" for s ev
    using deliver_noop[of t s ev] assms by (auto dest: width_applied_cong)
  then show ?thesis
    unfolding deliver_all_def by (intro foldl_preserves[where P = ?P]) simp_all
qed

lemma skill_entry_applies:
  assumes "skill_progress (elements pg t) = Some p"
  shows "width_applied t (skill_entry \<lparr>target = t, isIntersecting = True\<rparr> pg)"
    and "writes (skill_entry \<lparr>target = t, isIntersecting = True\<rparr> pg)
           = writes pg @ [(t, ''--skill-width'', data_width p)]"
    and "skill_progress (elements (skill_entry \<lparr>target = t, isIntersecting = True\<rparr> pg) t)
           = Some (p\<lparr>style := (style p)(''--skill-width'' := stored (data_width p))\<rparr>)"
  using assms
  by (simp_all add: width_applied_def revealed_def skill_entry_def add_visible_def
      classList_add_def Let_def set_skill_width_def setProperty_def getAttribute_data_width_def)

lemma scroll_callback_writes: "writes (ScrollAnimator_callback entries pg) = writes pg"
  unfolding ScrollAnimator_callback_def
  by (rule foldl_preserves[where P = "\<lambda>s. writes s = writes pg"])
    (simp_all add: scroll_entry_def add_visible_def)

lemma with_width_idem [simp]:
  "with_width (with_width p) = with_width p" "data_width (with_width p) = data_width p"
  by (simp_all add: with_width_def)

lemma replicate_snoc: "replicate n x @ [x] = replicate (Suc n) x"
  by (simp add: replicate_append_same)

lemma skill_entry_written:
  assumes "written t p w n pg"
  shows "written t p w (n + (if isIntersecting e \<and> target e = t then 1 else 0)) (skill_entry e pg)"
proof (cases "isIntersecting e")
  case False
  with assms show ?thesis by (simp add: skill_entry_def)
next
  case True
  show ?thesis
  proof (cases "target e = t")
    case False
    with True assms show ?thesis
      by (auto simp: written_def writes_to_def skill_entry_def add_visible_def Let_def
          set_skill_width_def split: option.splits)
  next
    case same: True
    show ?thesis
    proof (cases "n = 0")
      case True
      with \<open>isIntersecting e\<close> same assms show ?thesis
        by (simp add: written_def writes_to_def skill_entry_def add_visible_def Let_def
            set_skill_width_def classList_add_def setProperty_def with_width_def
            getAttribute_data_width_def)
    next
      case False
      have "setProperty ''--skill-width'' (data_width p) (with_width p) = with_width p"
        by (simp add: setProperty_def with_width_def)
      with False \<open>isIntersecting e\<close> same assms show ?thesis
        by (simp add: written_def writes_to_def skill_entry_def add_visible_def Let_def
            set_skill_width_def classList_add_def getAttribute_data_width_def
            replicate_append_same)
    qed
  qed
qed

lemma scroll_entry_written:
  assumes "written t p w n pg"
  shows "written t p w n (scroll_entry e pg)"
  using assms
  by (auto simp: written_def writes_to_def scroll_entry_def add_visible_def classList_add_def)

lemma skill_callback_written:
  "written t p w n pg \<Longrightarrow>
   written t p w (n + hits t entries) (SkillBarsAnimator_callback entries pg)"
  unfolding SkillBarsAnimator_callback_def
proof (induction entries arbitrary: n pg)
  case Nil
  then show ?case by (simp add: hits_def)
next
  case (Cons e entries)
  from skill_entry_written[OF Cons.prems, of e]
  have "written t p w (n + (if isIntersecting e \<and> target e = t then 1 else 0)
          + hits t entries) (foldl (\<lambda>pg e. skill_entry e pg) (skill_entry e pg) entries)"
    by (rule Cons.IH)
  then show ?case
    by (auto simp: hits_def add.assoc split: if_splits)
qed

lemma scroll_callback_written:
  "written t p w n pg \<Longrightarrow> written t p w n (ScrollAnimator_callback entries pg)"
  unfolding ScrollAnimator_callback_def
  by (rule foldl_preserves[where P = "written t p w n"]) (simp_all add: scroll_entry_written)

lemma deliver_all_written:
  "written t p w n pg \<Longrightarrow> written t p w (n + skill_hits t evs) (deliver_all evs pg)"
  unfolding deliver_all_def
proof (induction evs arbitrary: n pg)
  case Nil
  then show ?case by simp
next
  case (Cons ev evs)
  show ?case
  proof (cases ev)
    case (Scroll entries)
    from scroll_callback_written[OF Cons.prems, of entries]
    have "written t p w (n + skill_hits t evs)
            (foldl (\<lambda>pg ev. deliver ev pg) (ScrollAnimator_callback entries pg) evs)"
      by (rule Cons.IH)
    with Scroll show ?thesis by simp
  next
    case (Skill entries)
    from skill_callback_written[OF Cons.prems, of entries]
    have "written t p w (n + hits t entries + skill_hits t evs)
            (foldl (\<lambda>pg ev. deliver ev pg) (SkillBarsAnimator_callback entries pg) evs)"
      by (rule Cons.IH)
    with Skill show ?thesis by (simp add: add.assoc)
  qed
qed

lemma write_log:
  assumes "skill_progress (elements pg t) = Some p"
  shows "writes_to t (deliver_all evs pg)
           = writes_to t pg @ replicate (skill_hits t evs) (t, ''--skill-width'', data_width p)"
    and "skill_progress (elements (deliver_all evs pg) t)
           = Some (if skill_hits t evs = 0 then p else with_width p)"
proof -
  from assms have "written t p (writes_to t pg) 0 pg"
    by (simp add: written_def)
  from deliver_all_written[OF this, of evs]
  show "writes_to t (deliver_all evs pg)
           = writes_to t pg @ replicate (skill_hits t evs) (t, ''--skill-width'', data_width p)"
    and "skill_progress (elements (deliver_all evs pg) t)
           = Some (if skill_hits t evs = 0 then p else with_width p)"
    by (simp_all add: written_def)
qed

text \<open>
  Claim C3, amended. For every skill-bar target, the value of \<open>data-width\<close> is written to
  \<open>--skill-width\<close> by every intersecting entry delivered to the SkillBarsAnimator
  callback and by nothing else: over any sequence of visibility changes the writes for the
  target are exactly one per such entry, all with that value. Non-intersecting entries and
  the ScrollAnimator callback write nothing, so a target that ScrollAnimator has already
  marked \<open>visible\<close> has no width yet. Until the first such entry the progress element is
  as it was; from that entry on its style holds the value, and no sequence of visibility
  changes of either observer alters the element.
\<close>

theorem skill_width_rewritten:
  assumes "skill_progress (elements pg t) = Some p"
  shows "writes (skill_entry \<lparr>target = t, isIntersecting = True\<rparr> pg)
           = writes pg @ [(t, ''--skill-width'', data_width p)] \<and>
         skill_entry \<lparr>target = t, isIntersecting = False\<rparr> pg = pg \<and>
         skill_progress (elements (skill_entry \<lparr>target = t, isIntersecting = True\<rparr> pg) t)
           = Some (p\<lparr>style := (style p)(''--skill-width'' := stored (data_width p))\<rparr>) \<and>
         elements (deliver_all evs (skill_entry \<lparr>target = t, isIntersecting = True\<rparr> pg)) t
           = elements (skill_entry \<lparr>target = t, isIntersecting = True\<rparr> pg) t \<and>
         writes (ScrollAnimator_callback entries pg) = writes pg \<and>
         writes_to t (deliver_all evs pg)
           = writes_to t pg @
             replicate (skill_hits t evs) (t, ''--skill-width'', data_width p) \<and>
         skill_progress (elements (deliver_all evs pg) t)
           = Some (if skill_hits t evs = 0 then p
                   else p\<lparr>style := (style p)(''--skill-width'' := stored (data_width p))\<rparr>)"
  using skill_entry_applies[OF assms] deliver_all_noop[of t _ evs]
    scroll_callback_writes[of entries pg] write_log[OF assms, of evs]
  by (simp add: skill_entry_def with_width_def)

lemma card_page_scrolled:
  "classList (elements (deliver_all [Scroll [enters 0]] card_page) 0)
     = [''skill-card'', ''fade-in'', ''visible'']"
  "writes (deliver_all [Scroll [enters 0]] card_page) = []"
  "hits 0 [enters 0] = 1"
  "hits 0 [leaves 0] = 0"
  "writes_to 0 card_page = []"
  by code_simp+

theorem skill_width_rewritten_witness:
  "skill_progress (elements card_page 0) = Some \<lparr>data_width = Some ''88%'', style = Map.empty\<rparr> \<and>
   writes (skill_entry \<lparr>target = 0, isIntersecting = True\<rparr> card_page)
     = [(0, ''--skill-width'', Some ''88%'')] \<and>
   elements (deliver_all [Skill [leaves 0], Skill [enters 0]]
       (skill_entry \<lparr>target = 0, isIntersecting = True\<rparr> card_page)) 0
     = elements (skill_entry \<lparr>target = 0, isIntersecting = True\<rparr> card_page) 0 \<and>
   classList (elements (deliver_all [Scroll [enters 0]] card_page) 0)
     = [''skill-card'', ''fade-in'', ''visible''] \<and>
   writes (deliver_all [Scroll [enters 0]] card_page) = [] \<and>
   skill_progress (elements (deliver_all [Scroll [enters 0]] card_page) 0)
     = Some \<lparr>data_width = Some ''88%'', style = Map.empty\<rparr> \<and>
   writes_to 0 (deliver_all [Scroll [enters 0], Skill [enters 0], Scroll [enters 0],
       Skill [leaves 0], Skill [enters 0]] card_page)
     = [(0, ''--skill-width'', Some ''88%''), (0, ''--skill-width'', Some ''88%'')] \<and>
   skill_progress (elements (deliver_all [Scroll [enters 0], Skill [enters 0],
       Scroll [enters 0], Skill [leaves 0], Skill [enters 0]] card_page) 0)
     = Some \<lparr>data_width = Some ''88%'', style = [''--skill-width'' \<mapsto> ''88%'']\<rparr>"
proof -
  let ?p = "\<lparr>data_width = Some ''88%'', style = Map.empty\<rparr>"
  have p: "skill_progress (elements card_page 0) = Some ?p"
    by (simp add: card_page_def card_def)
  have st: "stored (Some ''88%'') = Some ''88%''"
    by (simp add: stored_def)
  note a = skill_width_rewritten[OF p, of "[Skill [leaves 0], Skill [enters 0]]"]
  note b = skill_width_rewritten[OF p, of "[Scroll [enters 0]]"]
  note c = skill_width_rewritten[OF p, of "[Scroll [enters 0], Skill [enters 0],
      Scroll [enters 0], Skill [leaves 0], Skill [enters 0]]"]
  from a have a': "writes (skill_entry \<lparr>target = 0, isIntersecting = True\<rparr> card_page)
       = [(0, ''--skill-width'', Some ''88%'')]"
    "elements (deliver_all [Skill [leaves 0], Skill [enters 0]]
       (skill_entry \<lparr>target = 0, isIntersecting = True\<rparr> card_page)) 0
     = elements (skill_entry \<lparr>target = 0, isIntersecting = True\<rparr> card_page) 0"
    by (simp_all add: card_page_def)
  from b have b': "skill_progress (elements (deliver_all [Scroll [enters 0]] card_page) 0)
       = Some ?p"
    by simp
  from c have c': "writes_to 0 (deliver_all [Scroll [enters 0], Skill [enters 0],
       Scroll [enters 0], Skill [leaves 0], Skill [enters 0]] card_page)
     = [(0, ''--skill-width'', Some ''88%''), (0, ''--skill-width'', Some ''88%'')]"
    "skill_progress (elements (deliver_all [Scroll [enters 0], Skill [enters 0],
       Scroll [enters 0], Skill [leaves 0], Skill [enters 0]] card_page) 0)
     = Some \<lparr>data_width = Some ''88%'', style = [''--skill-width'' \<mapsto> ''88%'']\<rparr>"
    by (simp_all add: card_page_scrolled(3,4,5) st)
  from p a' card_page_scrolled(1,2) b' c' show ?thesis
    by (intro conjI)
qed

text \<open>
  Counterexample to C3 as stated: a card that enters the viewport, leaves it and enters
  it again has its width written twice.
\<close>

theorem skill_width_written_twice:
  "writes (deliver_all [Skill [enters 0], Skill [leaves 0], Skill [enters 0]] card_page)
     = [(0, ''--skill-width'', Some ''88%''), (0, ''--skill-width'', Some ''88%'')]"
  by code_simp
subsection \<open>ContactForm\<close>

lemma trim_Nil [simp]: "trim [] = []"
  by (simp add: trim_def)

lemma validateField_ok: "snd (validateField f) = acceptable f"
  by (simp add: validateField_def acceptable_def)

lemma validateField_keeps:
  "ident (fst (validateField f)) = ident f"
  "ftype (fst (validateField f)) = ftype f"
  "required (fst (validateField f)) = required f"
  "defaultValue (fst (validateField f)) = defaultValue f"
  "field_value (fst (validateField f)) = field_value f"
  by (simp_all add: validateField_def)

lemma validate_loop:
  "foldl validate_input (acc, b) xs
   = (acc @ map (\<lambda>f. fst (validateField f)) xs, b \<and> list_all acceptable xs)"
proof (induction xs arbitrary: acc b)
  case Nil
  show ?case by simp
next
  case (Cons x xs)
  have "validate_input (acc, b) x = (acc @ [fst (validateField x)], b \<and> acceptable x)"
    by (simp add: validate_input_def split_beta validateField_ok)
  then show ?case
    by (simp add: Cons.IH conj_assoc)
qed

lemma validateForm_eq:
  "validateForm w =
     (w\<lparr>inputs := map (\<lambda>f. fst (validateField f)) (inputs w)\<rparr>, list_all acceptable (inputs w))"
  by (simp add: validateForm_def validate_loop)

lemma as_rendered_inputs:
  assumes "as_rendered w"
  obtains a b c d where "inputs w = [a, b, c, d]"
    "ident a = ''name''" "ident b = ''email''" "ident c = ''subject''" "ident d = ''message''"
    "required a" "required b" "required d" "ftype b = EmailInput"
    "ftype a \<noteq> EmailInput" "ftype c \<noteq> EmailInput" "ftype d \<noteq> EmailInput"
  using assms by (auto simp: as_rendered_def map_eq_Cons_conv)

lemma rejected_inputs:
  assumes "as_rendered w"
    and "(\<exists>f\<in>set (inputs w). required f \<and> field_value f = []) \<or>
         (\<exists>f\<in>set (inputs w). ftype f = EmailInput \<and> field_value f \<noteq> [] \<and>
             \<not> test emailRegex (field_value f))"
  shows "\<not> list_all acceptable (inputs w)"
proof -
  from assms(1) obtain a b c d where i: "inputs w = [a, b, c, d]"
    "required b" "ftype b = EmailInput"
    "ftype a \<noteq> EmailInput" "ftype c \<noteq> EmailInput" "ftype d \<noteq> EmailInput"
    by (rule as_rendered_inputs)
  from assms(2) show ?thesis
  proof
    assume "\<exists>f\<in>set (inputs w). required f \<and> field_value f = []"
    then obtain f where "f \<in> set (inputs w)" "\<not> acceptable f"
      by (auto simp: acceptable_def)
    then show ?thesis by (auto simp: list_all_iff)
  next
    assume "\<exists>f\<in>set (inputs w). ftype f = EmailInput \<and> field_value f \<noteq> [] \<and>
             \<not> test emailRegex (field_value f)"
    with i have "\<not> test emailRegex (field_value b)" by auto
    with i have "\<not> acceptable b"
      by (auto simp: acceptable_def)
    with i show ?thesis by simp
  qed
qed

lemma handleSubmit_rejects:
  assumes "as_rendered w" "\<not> list_all acceptable (inputs w)"
  shows "\<exists>w'. handleSubmit now w = Inr w' \<and>
           shown w' = Some (''form-status error'', PleaseFix, ''block'') \<and>
           map field_value (inputs w') = map field_value (inputs w) \<and>
           btn_submit w' = btn_submit w \<and> console w' = console w \<and>
           pending w' = pending w @ [(5000, HideStatus)]"
  using assms
  by (auto simp: handleSubmit_def validateForm_eq showStatus_def shown_def as_rendered_def
      validateField_keeps comp_def)

lemma handleSubmit_sends:
  assumes "as_rendered w" "list_all acceptable (inputs w)" "btn_submit w = Some b"
    "inputs w = [n, e, s, m]"
  shows "handleSubmit now w =
           Inr (w\<lparr>inputs := map (\<lambda>f. fst (validateField f)) (inputs w),
                  btn_submit := Some (b\<lparr>disabled := True, content := Sending\<rparr>),
                  console := console w @
                    [Log \<lparr>fd_name = field_value n, fd_email = field_value e,
                          fd_subject = field_value s, fd_message = field_value m,
                          fd_timestamp = now, fd_status = ''new''\<rparr>],
                  pending := pending w @ [(1500, Resolve (textContent_of (content b)))]\<rparr>)"
  using assms
  by (simp add: handleSubmit_def validateForm_eq as_rendered_def value_of_def
      validateField_keeps simulateSubmission_def Let_def)

lemma resume_after_send:
  assumes "form_status w1 \<noteq> None" "pending w1 = p @ [(1500, Resolve t)]"
    "btn_submit w1 = Some b'"
  shows "shown (fire_task (length p) w1) = Some (''form-status success'', MessageSent, ''block'')"
    and "map field_value (inputs (fire_task (length p) w1)) = map defaultValue (inputs w1)"
    and "btn_submit (fire_task (length p) w1) = Some (b'\<lparr>disabled := False, content := Label t\<rparr>)"
    and "pending (fire_task (length p) w1) = p @ [(5000, HideStatus)]"
    and "console (fire_task (length p) w1) = console w1"
  using assms
  by (auto simp: fire_task_def handleSubmit_resume_def showStatus_def form_reset_def shown_def
      comp_def nth_append)

text \<open>
  Claim C8. On the form of \<open>renderContact\<close>: when a required field is empty, or the
  email field is non-empty and does not match the pattern, validation fails; when
  validation fails, the banner shows the error status, nothing is logged or scheduled but
  the hiding of the banner, and the field values and the button are as before. When all
  fields validate, \<open>handleSubmit\<close> logs the data and schedules the resolution of its
  promise after 1500 ms; when that timer fires the banner shows the success status, every
  field is reset, and the button is enabled again with its label. In both cases
  \<open>handleSubmit\<close> returns without throwing, and the only effects are changes of the form,
  console output and timers.
\<close>

theorem contact_form_submission:
  assumes "as_rendered w"
  shows
    "((\<exists>f\<in>set (inputs w). required f \<and> field_value f = []) \<or>
      (\<exists>f\<in>set (inputs w). ftype f = EmailInput \<and> field_value f \<noteq> [] \<and>
          \<not> test emailRegex (field_value f))
      \<longrightarrow> \<not> snd (validateForm w)) \<and>
     (\<not> snd (validateForm w) \<longrightarrow>
        (\<exists>w'. handleSubmit now w = Inr w' \<and>
           shown w' = Some (''form-status error'', PleaseFix, ''block'') \<and>
           map field_value (inputs w') = map field_value (inputs w) \<and>
           btn_submit w' = btn_submit w \<and> console w' = console w \<and>
           pending w' = pending w @ [(5000, HideStatus)])) \<and>
     (snd (validateForm w) \<longrightarrow>
        (\<exists>w1 b. handleSubmit now w = Inr w1 \<and> btn_submit w = Some b \<and>
           pending w1 = pending w @ [(1500, Resolve (textContent_of (content b)))] \<and>
           console w1 = console w @
             [Log \<lparr>fd_name = field_value (inputs w ! 0), fd_email = field_value (inputs w ! 1),
                   fd_subject = field_value (inputs w ! 2),
                   fd_message = field_value (inputs w ! 3),
                   fd_timestamp = now, fd_status = ''new''\<rparr>] \<and>
           shown (fire_task (length (pending w)) w1)
             = Some (''form-status success'', MessageSent, ''block'') \<and>
           map field_value (inputs (fire_task (length (pending w)) w1))
             = map defaultValue (inputs w) \<and>
           btn_submit (fire_task (length (pending w)) w1)
             = Some \<lparr>disabled = False, content = Label (textContent_of (content b))\<rparr> \<and>
           pending (fire_task (length (pending w)) w1) = pending w @ [(5000, HideStatus)] \<and>
           console (fire_task (length (pending w)) w1) = console w1)) \<and>
     (\<exists>w'. handleSubmit now w = Inr w')"
proof (intro conjI impI)
  assume "(\<exists>f\<in>set (inputs w). required f \<and> field_value f = []) \<or>
      (\<exists>f\<in>set (inputs w). ftype f = EmailInput \<and> field_value f \<noteq> [] \<and>
          \<not> test emailRegex (field_value f))"
  with assms have "\<not> list_all acceptable (inputs w)"
    by (rule rejected_inputs)
  then show "\<not> snd (validateForm w)"
    by (simp add: validateForm_eq)
next
  assume "\<not> snd (validateForm w)"
  then have "\<not> list_all acceptable (inputs w)"
    by (simp add: validateForm_eq)
  with assms show "\<exists>w'. handleSubmit now w = Inr w' \<and>
           shown w' = Some (''form-status error'', PleaseFix, ''block'') \<and>
           map field_value (inputs w') = map field_value (inputs w) \<and>
           btn_submit w' = btn_submit w \<and> console w' = console w \<and>
           pending w' = pending w @ [(5000, HideStatus)]"
    by (rule handleSubmit_rejects)
next
  assume "snd (validateForm w)"
  then have ok: "list_all acceptable (inputs w)"
    by (simp add: validateForm_eq)
  from assms obtain n e s m where i: "inputs w = [n, e, s, m]"
    by (rule as_rendered_inputs)
  from assms obtain b where b: "btn_submit w = Some b"
    by (auto simp: as_rendered_def)
  let ?w1 = "w\<lparr>inputs := map (\<lambda>f. fst (validateField f)) (inputs w),
                  btn_submit := Some (b\<lparr>disabled := True, content := Sending\<rparr>),
                  console := console w @
                    [Log \<lparr>fd_name = field_value n, fd_email = field_value e,
                          fd_subject = field_value s, fd_message = field_value m,
                          fd_timestamp = now, fd_status = ''new''\<rparr>],
                  pending := pending w @ [(1500, Resolve (textContent_of (content b)))]\<rparr>"
  have h: "handleSubmit now w = Inr ?w1"
    using assms ok b i by (rule handleSubmit_sends)
  have st: "form_status ?w1 \<noteq> None"
    using assms by (simp add: as_rendered_def)
  have pe: "pending ?w1 = pending w @ [(1500, Resolve (textContent_of (content b)))]"
    by simp
  have bt: "btn_submit ?w1 = Some (b\<lparr>disabled := True, content := Sending\<rparr>)"
    by simp
  note r = resume_after_send[OF st pe bt]
  have dv: "map defaultValue (inputs ?w1) = map defaultValue (inputs w)"
    by (simp add: validateField_keeps comp_def)
  show "\<exists>w1 b. handleSubmit now w = Inr w1 \<and> btn_submit w = Some b \<and>
           pending w1 = pending w @ [(1500, Resolve (textContent_of (content b)))] \<and>
           console w1 = console w @
             [Log \<lparr>fd_name = field_value (inputs w ! 0), fd_email = field_value (inputs w ! 1),
                   fd_subject = field_value (inputs w ! 2),
                   fd_message = field_value (inputs w ! 3),
                   fd_timestamp = now, fd_status = ''new''\<rparr>] \<and>
           shown (fire_task (length (pending w)) w1)
             = Some (''form-status success'', MessageSent, ''block'') \<and>
           map field_value (inputs (fire_task (length (pending w)) w1))
             = map defaultValue (inputs w) \<and>
           btn_submit (fire_task (length (pending w)) w1)
             = Some \<lparr>disabled = False, content = Label (textContent_of (content b))\<rparr> \<and>
           pending (fire_task (length (pending w)) w1) = pending w @ [(5000, HideStatus)] \<and>
           console (fire_task (length (pending w)) w1) = console w1"
  proof (intro exI conjI)
    show "handleSubmit now w = Inr ?w1" by (rule h)
    show "btn_submit w = Some b" by (rule b)
    show "pending ?w1 = pending w @ [(1500, Resolve (textContent_of (content b)))]" by simp
    show "console ?w1 = console w @
             [Log \<lparr>fd_name = field_value (inputs w ! 0), fd_email = field_value (inputs w ! 1),
                   fd_subject = field_value (inputs w ! 2),
                   fd_message = field_value (inputs w ! 3),
                   fd_timestamp = now, fd_status = ''new''\<rparr>]"
      by (simp add: i)
    show "shown (fire_task (length (pending w)) ?w1)
             = Some (''form-status success'', MessageSent, ''block'')"
      by (rule r(1))
    show "map field_value (inputs (fire_task (length (pending w)) ?w1))
             = map defaultValue (inputs w)"
      using r(2) dv by simp
    show "btn_submit (fire_task (length (pending w)) ?w1)
             = Some \<lparr>disabled = False, content = Label (textContent_of (content b))\<rparr>"
      using r(3) by simp
    show "pending (fire_task (length (pending w)) ?w1) = pending w @ [(5000, HideStatus)]"
      by (rule r(4))
    show "console (fire_task (length (pending w)) ?w1) = console ?w1"
      by (rule r(5))
  qed
next
  show "\<exists>w'. handleSubmit now w = Inr w'"
  proof (cases "list_all acceptable (inputs w)")
    case False
    with assms handleSubmit_rejects[of w now] show ?thesis by blast
  next
    case True
    from assms obtain n e s m where i: "inputs w = [n, e, s, m]"
      by (rule as_rendered_inputs)
    from assms obtain b where b: "btn_submit w = Some b"
      by (auto simp: as_rendered_def)
    from handleSubmit_sends[OF assms True b i] show ?thesis by blast
  qed
qed

lemma example_forms:
  "as_rendered invalid_form"
  "\<exists>f\<in>set (inputs invalid_form). ftype f = EmailInput \<and> field_value f \<noteq> [] \<and>
      \<not> test emailRegex (field_value f)"
  "as_rendered valid_form"
  "snd (validateForm valid_form)"
  by code_simp+

theorem contact_form_submission_witness:
  "as_rendered invalid_form \<and>
   (\<exists>f\<in>set (inputs invalid_form). ftype f = EmailInput \<and> field_value f \<noteq> [] \<and>
      \<not> test emailRegex (field_value f)) \<and>
   \<not> snd (validateForm invalid_form) \<and>
   (\<exists>w'. handleSubmit ''2025-01-01T00:00:00.000Z'' invalid_form = Inr w' \<and>
      shown w' = Some (''form-status error'', PleaseFix, ''block'') \<and>
      map field_value (inputs w') = [''Nigel'', ''nigel@example'', [], ''hello'']) \<and>
   as_rendered valid_form \<and> snd (validateForm valid_form) \<and>
   (\<exists>w1. handleSubmit ''2025-01-01T00:00:00.000Z'' valid_form = Inr w1 \<and>
      pending w1 = [(1500, Resolve ''Send Message'')] \<and>
      shown (fire_task 0 w1) = Some (''form-status success'', MessageSent, ''block'') \<and>
      map field_value (inputs (fire_task 0 w1)) = [[], [], [], []])"
proof -
  let ?now = "''2025-01-01T00:00:00.000Z''"
  have i: "map field_value (inputs invalid_form) = [''Nigel'', ''nigel@example'', [], ''hello'']"
    "pending valid_form = []"
    "btn_submit valid_form = Some \<lparr>disabled = False, content = Label ''Send Message''\<rparr>"
    "map defaultValue (inputs valid_form) = [[], [], [], []]"
    by (simp_all add: invalid_form_def valid_form_def renderContact_form_def rendered_input_def)
  note bad = contact_form_submission[OF example_forms(1), of ?now]
  note good = contact_form_submission[OF example_forms(3), of ?now]
  from bad example_forms(2) have nv: "\<not> snd (validateForm invalid_form)"
    by blast
  with bad obtain w' where w': "handleSubmit ?now invalid_form = Inr w'"
    "shown w' = Some (''form-status error'', PleaseFix, ''block'')"
    "map field_value (inputs w') = map field_value (inputs invalid_form)"
    by blast
  from good example_forms(4) obtain w1 b where w1: "handleSubmit ?now valid_form = Inr w1"
    "btn_submit valid_form = Some b"
    "pending w1 = pending valid_form @ [(1500, Resolve (textContent_of (content b)))]"
    "shown (fire_task (length (pending valid_form)) w1)
       = Some (''form-status success'', MessageSent, ''block'')"
    "map field_value (inputs (fire_task (length (pending valid_form)) w1))
       = map defaultValue (inputs valid_form)"
    by blast
  from w1(2) i(3) have b: "textContent_of (content b) = ''Send Message''"
    by auto
  have bad_part: "\<exists>w'. handleSubmit ?now invalid_form = Inr w' \<and>
      shown w' = Some (''form-status error'', PleaseFix, ''block'') \<and>
      map field_value (inputs w') = [''Nigel'', ''nigel@example'', [], ''hello'']"
    using w' i(1) by simp
  have good_part: "\<exists>w1. handleSubmit ?now valid_form = Inr w1 \<and>
      pending w1 = [(1500, Resolve ''Send Message'')] \<and>
      shown (fire_task 0 w1) = Some (''form-status success'', MessageSent, ''block'') \<and>
      map field_value (inputs (fire_task 0 w1)) = [[], [], [], []]"
    using w1 i(2,4) b by simp
  from example_forms nv bad_part good_part show ?thesis
    by (intro conjI)
qed

subsection \<open>Rendering\<close>
























end
